theory Spec2Isabelle
  imports Main "HOL-Library.Word" "HOL-Library.Multiset" "HOL-Library.AList"
begin

section \<open>Data model\<close>

text \<open>
  Modelled from the spec: the types of primitives/referral.h, which is not among the
  sources. A referral has the fields the spec lists and the code reads, and its hash
  \<open>GetHash()\<close>. Addresses (\<open>uint160\<close>) and hashes (\<open>uint256\<close>) are opaque identifiers.
  The store looks referrals up by address, and \<open>OrderReferrals\<close> passes a referral's
  \<open>previousReferral\<close> to that same lookup, so both are one type of keys here. The null
  address (\<open>IsNull()\<close>) is 0.
\<close>

type_synonym Address = nat
type_synonym uint256 = nat
type_synonym CAmount = int

record Referral =
  address :: Address
  addressType :: "8 word"
  pubKeyId :: Address
  codeHash :: uint256
  previousReferral :: uint256
  parentAddress :: Address
  GetHash :: uint256

type_synonym ANVTuple = "8 word \<times> Address \<times> CAmount"
type_synonym ChildAddresses = "Address list"

text \<open>
  What a call does besides returning: \<open>assert\<close> stops the process unless the build
  defines \<open>NDEBUG\<close> (the flag \<open>ndebug\<close> of the functions below), and overflow of the
  signed 64-bit \<open>CAmount\<close> is undefined behaviour.
\<close>

datatype 'a outcome = Returned 'a | AssertFailed | UndefinedBehaviour

section \<open>The key-value store behind ReferralsViewDB\<close>

text \<open>
  Modelled from the spec: the KV adapter \<open>CDBWrapper\<close> (dbwrapper.h is not among the
  sources). One map per column byte used by refdb.cpp; \<open>Read\<close> succeeds exactly on a
  present key. A \<open>Write\<close> or \<open>Erase\<close> may fail ("any KV operation returns false"):
  \<open>write_ok\<close> lists the outcomes of the coming writes, and a write after the end of the
  list succeeds. A failed write changes no column.
\<close>

record KV =
  DB_REFERRALS :: "Address \<rightharpoonup> Referral"
  DB_PARENT_KEY :: "Address \<rightharpoonup> Address"
  DB_CHILDREN :: "Address \<rightharpoonup> ChildAddresses"
  DB_ANV :: "Address \<rightharpoonup> ANVTuple"
  write_ok :: "bool list"

definition Write :: "(KV \<Rightarrow> KV) \<Rightarrow> KV \<Rightarrow> bool \<times> KV" where
  "Write put db =
     (case write_ok db of
        [] \<Rightarrow> (True, put db)
      | ok # rest \<Rightarrow>
          if ok then (True, (put db)\<lparr>write_ok := rest\<rparr>)
          else (False, db\<lparr>write_ok := rest\<rparr>))"

definition put_referral :: "Address \<Rightarrow> Referral \<Rightarrow> KV \<Rightarrow> KV" where
  "put_referral k v db = db\<lparr>DB_REFERRALS := (DB_REFERRALS db)(k \<mapsto> v)\<rparr>"

definition put_parent :: "Address \<Rightarrow> Address \<Rightarrow> KV \<Rightarrow> KV" where
  "put_parent k v db = db\<lparr>DB_PARENT_KEY := (DB_PARENT_KEY db)(k \<mapsto> v)\<rparr>"

definition put_children :: "Address \<Rightarrow> ChildAddresses \<Rightarrow> KV \<Rightarrow> KV" where
  "put_children k v db = db\<lparr>DB_CHILDREN := (DB_CHILDREN db)(k \<mapsto> v)\<rparr>"

definition put_anv :: "Address \<Rightarrow> ANVTuple \<Rightarrow> KV \<Rightarrow> KV" where
  "put_anv k v db = db\<lparr>DB_ANV := (DB_ANV db)(k \<mapsto> v)\<rparr>"

definition empty_db :: KV where
  "empty_db = \<lparr>DB_REFERRALS = Map.empty, DB_PARENT_KEY = Map.empty,
     DB_CHILDREN = Map.empty, DB_ANV = Map.empty, write_ok = []\<rparr>"

section \<open>ReferralsViewDB (refdb.cpp)\<close>

definition GetReferral :: "KV \<Rightarrow> Address \<Rightarrow> Referral option" where
  "GetReferral db a = DB_REFERRALS db a"

definition GetReferrer :: "KV \<Rightarrow> Address \<Rightarrow> Address option" where
  "GetReferrer db a = DB_PARENT_KEY db a"

definition GetChildren :: "KV \<Rightarrow> Address \<Rightarrow> ChildAddresses" where
  "GetChildren db a = (case DB_CHILDREN db a of None \<Rightarrow> [] | Some children \<Rightarrow> children)"

definition GetANV :: "KV \<Rightarrow> Address \<Rightarrow> ANVTuple option" where
  "GetANV db a = DB_ANV db a"

text \<open>
  \<open>InsertReferral\<close>: the referral and its zero ANV are written first, the ANV under the
  key \<open>pubKeyId\<close>; the parent is resolved after these writes. Each failed write returns
  false at once. A missing parent without \<open>allow_no_parent\<close> reaches
  \<open>assert(false && "parent referral missing"); return false;\<close>.
\<close>

definition InsertReferral :: "bool \<Rightarrow> KV \<Rightarrow> Referral \<Rightarrow> bool \<Rightarrow> bool outcome \<times> KV" where
  "InsertReferral ndebug db referral allow_no_parent =
     (case Write (put_referral (address referral) referral) db of
        (False, db1) \<Rightarrow> (Returned False, db1)
      | (True, db1) \<Rightarrow>
     (case Write (put_anv (pubKeyId referral)
                   (addressType referral, pubKeyId referral, 0)) db1 of
        (False, db2) \<Rightarrow> (Returned False, db2)
      | (True, db2) \<Rightarrow>
     (case GetReferral db2 (parentAddress referral) of
        Some parent_referral \<Rightarrow>
          (case Write (put_parent (address referral) (address parent_referral)) db2 of
             (False, db3) \<Rightarrow> (Returned False, db3)
           | (True, db3) \<Rightarrow>
          (case Write (put_children (address parent_referral)
                        (GetChildren db3 (address parent_referral) @ [address referral])) db3 of
             (False, db4) \<Rightarrow> (Returned False, db4)
           | (True, db4) \<Rightarrow> (Returned True, db4)))
      | None \<Rightarrow>
          if \<not> allow_no_parent then
            (if ndebug then (Returned False, db2) else (AssertFailed, db2))
          else (Returned True, db2))))"

definition MAX_LEVELS :: nat where
  "MAX_LEVELS = 2 ^ 64 - 1"

definition CAmount_range :: "int \<Rightarrow> bool" where
  "CAmount_range v = (- (2 ^ 63) \<le> v \<and> v < 2 ^ 63)"

text \<open>
  The loop of \<open>UpdateANV\<close>, with the current address (\<open>addr\<close>) and \<open>level\<close> as arguments. The
  three assertions inside the loop and the one after it are skipped under \<open>NDEBUG\<close>.
\<close>

function UpdateANV_loop ::
  "bool \<Rightarrow> KV \<Rightarrow> Address option \<Rightarrow> nat \<Rightarrow> CAmount \<Rightarrow> bool outcome \<times> KV" where
  "UpdateANV_loop ndebug db addr level change =
     (case addr of
        None \<Rightarrow>
          if \<not> ndebug \<and> \<not> level < MAX_LEVELS then (AssertFailed, db) else (Returned True, db)
      | Some a \<Rightarrow>
          if \<not> level < MAX_LEVELS then
            (if \<not> ndebug then (AssertFailed, db) else (Returned True, db))
          else
            (case DB_ANV db a of
               None \<Rightarrow> (Returned False, db)
             | Some (atype, key, amount) \<Rightarrow>
                 if \<not> ndebug \<and> atype = 0 then (AssertFailed, db)
                 else if \<not> ndebug \<and> key = 0 then (AssertFailed, db)
                 else if \<not> CAmount_range (amount + change) then (UndefinedBehaviour, db)
                 else if \<not> ndebug \<and> amount + change < 0 then (AssertFailed, db)
                 else
                   (case Write (put_anv a (atype, key, amount + change)) db of
                      (False, db1) \<Rightarrow> (Returned False, db1)
                    | (True, db1) \<Rightarrow>
                        UpdateANV_loop ndebug db1 (GetReferrer db1 a) (level + 1) change)))"
  by pat_completeness auto
termination
  by (relation "measure (\<lambda>(ndebug, db, addr, level, change). MAX_LEVELS - level)") auto

declare UpdateANV_loop.simps [simp del]

definition UpdateANV :: "bool \<Rightarrow> KV \<Rightarrow> 8 word \<Rightarrow> Address \<Rightarrow> CAmount \<Rightarrow> bool outcome \<times> KV" where
  "UpdateANV ndebug db atype start_address change =
     UpdateANV_loop ndebug db (Some start_address) 0 change"

text \<open>
  A root path of the store: \<open>start\<close>, its referrer, and so on up to an address with no
  parent pointer, as \<open>UpdateANV\<close> walks it with \<open>GetReferrer\<close>.
\<close>

fun root_path :: "(Address \<rightharpoonup> Address) \<Rightarrow> Address \<Rightarrow> Address list \<Rightarrow> bool" where
  "root_path parent a [] = False"
| "root_path parent a [x] = (x = a \<and> parent a = None)"
| "root_path parent a (x # y # ys) = (x = a \<and> parent a = Some y \<and> root_path parent y (y # ys))"

definition anv_amount :: "KV \<Rightarrow> Address \<Rightarrow> CAmount" where
  "anv_amount db a = (case DB_ANV db a of None \<Rightarrow> 0 | Some (atype, key, amount) \<Rightarrow> amount)"

definition add_change :: "CAmount \<Rightarrow> ANVTuple \<Rightarrow> ANVTuple" where
  "add_change change anv = (case anv of (atype, key, amount) \<Rightarrow> (atype, key, amount + change))"

subsection \<open>Example referrals and stores\<close>

text \<open>The linear chain of the spec's scenarios 1 and 2: R1 is a root, R2 its child, R3 the child of R2.\<close>

definition R1 :: Referral where
  "R1 = \<lparr>address = 1, addressType = 1, pubKeyId = 1, codeHash = 11, previousReferral = 10,
         parentAddress = 0, GetHash = 21\<rparr>"

definition R2 :: Referral where
  "R2 = \<lparr>address = 2, addressType = 1, pubKeyId = 2, codeHash = 12, previousReferral = 11,
         parentAddress = 1, GetHash = 22\<rparr>"

definition R3 :: Referral where
  "R3 = \<lparr>address = 3, addressType = 1, pubKeyId = 3, codeHash = 13, previousReferral = 12,
         parentAddress = 2, GetHash = 23\<rparr>"

definition chain_db :: KV where
  "chain_db = snd (InsertReferral False (snd (InsertReferral False
                (snd (InsertReferral False empty_db R1 True)) R2 False)) R3 False)"

text \<open>A referral that names its own address as parent, an orphan, and a referral of a
  script address (type 2), whose key id is not its address.\<close>

definition Rself :: Referral where
  "Rself = \<lparr>address = 5, addressType = 1, pubKeyId = 5, codeHash = 15, previousReferral = 15,
         parentAddress = 5, GetHash = 25\<rparr>"

definition Rorphan :: Referral where
  "Rorphan = \<lparr>address = 6, addressType = 1, pubKeyId = 6, codeHash = 16, previousReferral = 17,
         parentAddress = 7, GetHash = 26\<rparr>"

definition Rscript :: Referral where
  "Rscript = \<lparr>address = 8, addressType = 2, pubKeyId = 9, codeHash = 18, previousReferral = 10,
         parentAddress = 0, GetHash = 28\<rparr>"

section \<open>OrderReferrals (refdb.cpp)\<close>

text \<open>
  \<open>std::partition\<close> on the bidirectional iterators of a vector, as the standard
  library implements it: \<open>first\<close> moves right over elements that satisfy the predicate,
  \<open>last\<close> moves left over elements that do not, and the two elements they stop at are
  swapped. The result is the pair of the range before the returned iterator and the
  range from it on; the vector then holds the first followed by the second.
\<close>

function std_partition :: "('a \<Rightarrow> bool) \<Rightarrow> 'a list \<Rightarrow> 'a list \<times> 'a list" where
  "std_partition pred [] = ([], [])"
| "std_partition pred (x # xs) =
     (if pred x then
        (case std_partition pred xs of (ts, fs) \<Rightarrow> (x # ts, fs))
      else
        (case dropWhile (\<lambda>y. \<not> pred y) (rev xs) of
           [] \<Rightarrow> ([], x # xs)
         | y # ys \<Rightarrow>
             (case std_partition pred (rev ys) of
                (ts, fs) \<Rightarrow> (y # ts, fs @ x # rev (takeWhile (\<lambda>y. \<not> pred y) (rev xs))))))"
  by pat_completeness auto
termination
proof (relation "measure (\<lambda>(pred, xs). length xs)")
  show "wf (measure (\<lambda>(pred :: 'a \<Rightarrow> bool, xs). length xs))" by simp
next
  fix pred :: "'a \<Rightarrow> bool" and x xs
  show "((pred, xs), (pred, x # xs)) \<in> measure (\<lambda>(pred, xs). length xs)" by simp
next
  fix pred :: "'a \<Rightarrow> bool" and x xs y ys
  assume "dropWhile (\<lambda>y. \<not> pred y) (rev xs) = y # ys"
  then have "length (y # ys) \<le> length (rev xs)"
    using length_dropWhile_le [of "\<lambda>y. \<not> pred y" "rev xs"] by simp
  then show "((pred, rev ys), (pred, x # xs)) \<in> measure (\<lambda>(pred, xs). length xs)" by simp
qed

text \<open>
  The \<open>graph\<close> of \<open>OrderReferrals\<close> is a \<open>std::map\<close> that is only accessed with
  \<open>operator[]\<close>, which yields the empty vector for a key not yet present: a total
  function from hashes to vectors.
\<close>

definition insert_roots :: "Referral list \<Rightarrow> (uint256 \<Rightarrow> Referral list) \<Rightarrow> (uint256 \<Rightarrow> Referral list)" where
  "insert_roots roots graph = fold (\<lambda>ref g. g(codeHash ref := [])) roots graph"

definition insert_disconnected :: "Referral list \<Rightarrow> (uint256 \<Rightarrow> Referral list) \<Rightarrow> (uint256 \<Rightarrow> Referral list)" where
  "insert_disconnected interior graph =
     fold (\<lambda>ref g. g(previousReferral ref := g (previousReferral ref) @ [ref])) interior graph"

text \<open>
  The breadth-first walk. \<open>replace\<close> is the index of the iterator of that name,
  \<open>replace != refs.end()\<close> is \<open>replace < length refs\<close>. The code reads \<open>ref\<close>, a
  reference to the front of the queue, once more after \<open>pop_front()\<close>; the walk below
  uses the element that was popped. The result is the work queue, the vector and
  \<open>replace\<close> when the loop ends.
\<close>

function bfs_walk :: "(uint256 \<Rightarrow> Referral list) \<Rightarrow> Referral list \<Rightarrow> Referral list \<Rightarrow> nat
    \<Rightarrow> Referral list \<times> Referral list \<times> nat" where
  "bfs_walk graph to_process refs replace =
     (if to_process \<noteq> [] \<and> replace < length refs then
        bfs_walk graph (tl to_process @ graph (codeHash (hd to_process)))
          (refs[replace := hd to_process]) (replace + 1)
      else (to_process, refs, replace))"
  by pat_completeness auto
termination
  by (relation "measure (\<lambda>(graph, to_process, refs, replace). length refs - replace)") auto

declare bfs_walk.simps [simp del]

definition OrderReferrals :: "KV \<Rightarrow> Referral list \<Rightarrow> bool \<times> Referral list" where
  "OrderReferrals db refs =
     (if refs = [] then (True, refs)
      else
        (case std_partition (\<lambda>ref. GetReferral db (previousReferral ref) \<noteq> None) refs of
           (roots, interior) \<Rightarrow>
             if roots = [] then (False, roots @ interior)
             else
               (case bfs_walk (insert_disconnected interior (insert_roots roots (\<lambda>h. [])))
                       roots (roots @ interior) 0 of
                  (to_process, refs', replace) \<Rightarrow>
                    if replace \<noteq> length refs' \<or> to_process \<noteq> [] then (False, refs')
                    else (True, refs'))))"




definition Rgenesis :: Referral where
  "Rgenesis = \<lparr>address = 10, addressType = 1, pubKeyId = 10, codeHash = 10, previousReferral = 0,
         parentAddress = 0, GetHash = 20\<rparr>"

definition genesis_db :: KV where
  "genesis_db = snd (InsertReferral False empty_db Rgenesis True)"

definition R5 :: Referral where
  "R5 = \<lparr>address = 50, addressType = 1, pubKeyId = 50, codeHash = 51, previousReferral = 10,
         parentAddress = 10, GetHash = 52\<rparr>"


definition order_inv :: "Referral list \<Rightarrow> (uint256 \<Rightarrow> Referral list) \<Rightarrow> Referral list
    \<Rightarrow> Referral list \<Rightarrow> nat \<Rightarrow> bool" where
  "order_inv roots graph q rs k = (k \<le> length rs \<and>
     take k rs @ q = roots @ concat (map (\<lambda>r. graph (codeHash r)) (take k rs)))"


section \<open>ReferralsViewCache (referrals.cpp)\<close>

text \<open>
  Modelled from the spec: the members of the cache, declared in referrals.h, which is
  not among the sources. The two maps are lists of pairs with distinct keys in the order
  in which the container iterates (\<open>insert\<close> does not replace an existing key; a new
  pair is put at the end here). \<open>Flush\<close> calls \<open>InsertReferral\<close> with one argument, the default
  \<open>allow_no_parent = false\<close>, and ignores the value returned; an insert that stops at
  its assertion stops \<open>Flush\<close> before the map is cleared.
\<close>

record ReferralsViewCache =
  m_db :: KV
  m_referral_cache :: "(Address \<times> Referral) list"
  m_wallet_to_referrer :: "(Address \<times> Address) list"

definition InsertReferralIntoCache :: "ReferralsViewCache \<Rightarrow> Referral \<Rightarrow> ReferralsViewCache" where
  "InsertReferralIntoCache c ref =
     (if map_of (m_referral_cache c) (address ref) = None
      then c\<lparr>m_referral_cache := m_referral_cache c @ [(address ref, ref)]\<rparr>
      else c)"

definition Cache_GetReferral ::
  "ReferralsViewCache \<Rightarrow> Address \<Rightarrow> Referral option \<times> ReferralsViewCache" where
  "Cache_GetReferral c a =
     (case map_of (m_referral_cache c) a of
        Some ref \<Rightarrow> (Some ref, c)
      | None \<Rightarrow>
          (case GetReferral (m_db c) a of
             Some ref \<Rightarrow> (Some ref, InsertReferralIntoCache c ref)
           | None \<Rightarrow> (None, c)))"

definition InsertWalletRelationshipIntoCache ::
  "ReferralsViewCache \<Rightarrow> Address \<Rightarrow> Address \<Rightarrow> ReferralsViewCache" where
  "InsertWalletRelationshipIntoCache c child parent =
     (if map_of (m_wallet_to_referrer c) child = None
      then c\<lparr>m_wallet_to_referrer := m_wallet_to_referrer c @ [(child, parent)]\<rparr>
      else c)"

definition Cache_GetReferrer ::
  "ReferralsViewCache \<Rightarrow> Address \<Rightarrow> Address option \<times> ReferralsViewCache" where
  "Cache_GetReferrer c a =
     (case map_of (m_wallet_to_referrer c) a of
        Some parent \<Rightarrow> (Some parent, c)
      | None \<Rightarrow>
          (case GetReferrer (m_db c) a of
             Some parent \<Rightarrow> (Some parent, InsertWalletRelationshipIntoCache c a parent)
           | None \<Rightarrow> (None, c)))"

definition Cache_WalletIdExists :: "ReferralsViewCache \<Rightarrow> Address \<Rightarrow> bool \<times> ReferralsViewCache" where
  "Cache_WalletIdExists c a =
     (case map_of (m_wallet_to_referrer c) a of
        Some parent \<Rightarrow> (True, c)
      | None \<Rightarrow>
          (case GetReferrer (m_db c) a of
             Some parent \<Rightarrow> (True, InsertWalletRelationshipIntoCache c a parent)
           | None \<Rightarrow> (False, c)))"

fun Flush_loop :: "bool \<Rightarrow> KV \<Rightarrow> (Address \<times> Referral) list \<Rightarrow> unit outcome \<times> KV" where
  "Flush_loop ndebug db [] = (Returned (), db)"
| "Flush_loop ndebug db (pr # rest) =
     (case InsertReferral ndebug db (snd pr) False of
        (Returned ok, db') \<Rightarrow> Flush_loop ndebug db' rest
      | (AssertFailed, db') \<Rightarrow> (AssertFailed, db')
      | (UndefinedBehaviour, db') \<Rightarrow> (UndefinedBehaviour, db'))"

definition Flush :: "bool \<Rightarrow> ReferralsViewCache \<Rightarrow> unit outcome \<times> ReferralsViewCache" where
  "Flush ndebug c =
     (case Flush_loop ndebug (m_db c) (m_referral_cache c) of
        (Returned u, db') \<Rightarrow> (Returned (), c\<lparr>m_db := db', m_referral_cache := []\<rparr>)
      | (AssertFailed, db') \<Rightarrow> (AssertFailed, c\<lparr>m_db := db'\<rparr>)
      | (UndefinedBehaviour, db') \<Rightarrow> (UndefinedBehaviour, c\<lparr>m_db := db'\<rparr>))"

text \<open>A cache in front of the store that holds the root referral Rgenesis, after one read of it.\<close>

definition genesis_cache :: ReferralsViewCache where
  "genesis_cache = snd (Cache_GetReferral
      \<lparr>m_db = genesis_db, m_referral_cache = [], m_wallet_to_referrer = []\<rparr> 10)"

definition chain_cache :: ReferralsViewCache where
  "chain_cache = snd (Cache_GetReferrer (snd (Cache_GetReferral
      \<lparr>m_db = chain_db, m_referral_cache = [], m_wallet_to_referrer = []\<rparr> 2)) 3)"

section \<open>ReferralTxMemPool (refmempool.cpp)\<close>

text \<open>
  Modelled from the spec: the members and container types of the pool, declared in
  refmempool.h, which is not among the sources. The pool holds the primary index
  \<open>mapRTx\<close> (unique by referral hash, here in insertion order), the links map
  \<open>mapLinks\<close> and, for the callbacks, the \<open>signals\<close> fired so far.
  An iterator \<open>refiter\<close> is the hash of the entry it points to, and \<open>setEntries\<close> is a
  set of iterators ordered by that hash: a sorted list without duplicates. Each signal is
  recorded with what an observer running in the callback sees: whether the call that
  fires it has taken the lock \<open>cs\<close>, and the hashes in the primary index at that moment.
\<close>

datatype MemPoolRemovalReason = UNKNOWN | EXPIRY | BLOCK | REORG | CONFLICT | REPLACED

record RefMemPoolEntry =
  entry :: Referral
  nTime :: int
  entryHeight :: nat

datatype signal = NotifyEntryAdded Referral | NotifyEntryRemoved Referral MemPoolRemovalReason

record observed =
  cs_held :: bool
  seen :: "uint256 list"

record ReferralTxMemPool =
  mapRTx :: "RefMemPoolEntry list"
  mapLinks :: "(uint256 \<times> uint256 list) list"
  signals :: "(signal \<times> observed) list"

definition handle :: "RefMemPoolEntry \<Rightarrow> uint256" where
  "handle e = GetHash (entry e)"

definition setEntries_insert :: "uint256 \<Rightarrow> uint256 list \<Rightarrow> uint256 list" where
  "setEntries_insert it s = (if it \<in> set s then s else insort it s)"

definition children_of :: "(uint256 \<times> uint256 list) list \<Rightarrow> uint256 \<Rightarrow> uint256 list" where
  "children_of links it = (case map_of links it of None \<Rightarrow> [] | Some children \<Rightarrow> children)"

definition Clear :: "ReferralTxMemPool \<Rightarrow> ReferralTxMemPool" where
  "Clear pool = pool\<lparr>mapRTx := [], mapLinks := []\<rparr>"

text \<open>
  \<open>AddUnchecked\<close> fires \<open>NotifyEntryAdded\<close> first, then takes the lock and inserts. An
  insert of a hash already present leaves the index as it is and yields the iterator of
  the entry there. The parent is the first entry of the index whose address is the
  \<open>parentAddress\<close> of the new entry, searched after the insert.
\<close>

definition AddUnchecked :: "ReferralTxMemPool \<Rightarrow> uint256 \<Rightarrow> RefMemPoolEntry \<Rightarrow> bool \<times> ReferralTxMemPool" where
  "AddUnchecked pool hash e =
     (let notified = signals pool @
            [(NotifyEntryAdded (entry e), \<lparr>cs_held = False, seen = map handle (mapRTx pool)\<rparr>)];
          newit = handle e;
          rtx = (if newit \<in> set (map handle (mapRTx pool)) then mapRTx pool else mapRTx pool @ [e]);
          links1 = (if map_of (mapLinks pool) newit = None then mapLinks pool @ [(newit, [])]
                    else mapLinks pool);
          links2 = (case find (\<lambda>parent. address (entry parent) = parentAddress (entry e)) rtx of
                      None \<Rightarrow> links1
                    | Some parent \<Rightarrow>
                        AList.update (handle parent)
                          (setEntries_insert newit (children_of links1 (handle parent))) links1)
      in (True, pool\<lparr>mapRTx := rtx, mapLinks := links2, signals := notified\<rparr>))"

definition stage_children :: "uint256 list \<Rightarrow> uint256 list \<Rightarrow> uint256 list \<Rightarrow> uint256 list" where
  "stage_children setDescendants setChildren stage =
     fold (\<lambda>childit s. if childit \<in> set setDescendants then s else setEntries_insert childit s)
       setChildren stage"

text \<open>Facts on \<open>setEntries\<close> that the termination of the descendant walk needs.\<close>

lemma set_setEntries_insert: "set (setEntries_insert it s) = insert it (set s)"
  by (simp add: setEntries_insert_def set_insort_key insert_absorb)

lemma set_stage_children:
  "set (stage_children d cs stage) = set stage \<union> (set cs - set d)"
  unfolding stage_children_def
  by (induction cs arbitrary: stage) (auto simp: set_setEntries_insert)

text \<open>
  The loop of \<open>CalculateDescendants\<close>. \<open>GetMemPoolChildren\<close> asserts that the iterator
  has an entry in \<open>mapLinks\<close>; the result \<open>None\<close> is that assertion failing (without
  assertions the end iterator is dereferenced).
\<close>

function CalculateDescendants_loop ::
  "(uint256 \<times> uint256 list) list \<Rightarrow> uint256 list \<Rightarrow> uint256 list \<Rightarrow> uint256 list option" where
  "CalculateDescendants_loop links [] setDescendants = Some setDescendants"
| "CalculateDescendants_loop links (it # rest) setDescendants =
     (case map_of links it of
        None \<Rightarrow> None
      | Some setChildren \<Rightarrow>
          CalculateDescendants_loop links
            (stage_children (setEntries_insert it setDescendants) setChildren (removeAll it rest))
            (setEntries_insert it setDescendants))"
  by pat_completeness auto
termination
proof (relation "measures [\<lambda>(links, stage, d). card (fst ` set links - set d),
                           \<lambda>(links, stage, d). card (set stage \<inter> set d)]")
  show "wf (measures [\<lambda>(links :: (uint256 \<times> uint256 list) list, stage :: uint256 list, d :: uint256 list).
                          card (fst ` set links - set d),
                      \<lambda>(links, stage, d). card (set stage \<inter> set d)])"
    by simp
next
  fix links :: "(uint256 \<times> uint256 list) list" and it rest d cs
  assume look: "map_of links it = Some cs"
  then have dom: "it \<in> fst ` set links"
    by (meson domI domIff map_of_eq_None_iff)
  let ?d' = "setEntries_insert it d"
  let ?s' = "stage_children ?d' cs (removeAll it rest)"
  show "((links, ?s', ?d'), (links, it # rest, d))
          \<in> measures [\<lambda>(links, stage, d). card (fst ` set links - set d),
                        \<lambda>(links, stage, d). card (set stage \<inter> set d)]"
  proof (cases "it \<in> set d")
    case False
    have "fst ` set links - set ?d' \<subset> fst ` set links - set d"
      using False dom by (auto simp: set_setEntries_insert)
    then have "card (fst ` set links - set ?d') < card (fst ` set links - set d)"
      by (intro psubset_card_mono) simp_all
    then show ?thesis by simp
  next
    case True
    then have same: "set ?d' = set d" by (auto simp: set_setEntries_insert)
    have "set ?s' \<inter> set ?d' \<subset> set (it # rest) \<inter> set d"
      using True by (auto simp: set_stage_children same)
    then have "card (set ?s' \<inter> set ?d') < card (set (it # rest) \<inter> set d)"
      by (intro psubset_card_mono) simp_all
    with same show ?thesis by simp
  qed
qed

definition CalculateDescendants :: "ReferralTxMemPool \<Rightarrow> uint256 \<Rightarrow> uint256 list \<Rightarrow> uint256 list option" where
  "CalculateDescendants pool entryit setDescendants =
     CalculateDescendants_loop (mapLinks pool)
       (if entryit \<in> set setDescendants then [] else [entryit]) setDescendants"

text \<open>
  \<open>RemoveUnchecked\<close> dereferences its iterator for the callback: \<open>None\<close> when no entry
  of the index has that hash (an invalidated iterator). Its callers hold the lock.
\<close>

definition RemoveUnchecked :: "ReferralTxMemPool \<Rightarrow> uint256 \<Rightarrow> MemPoolRemovalReason \<Rightarrow> ReferralTxMemPool option" where
  "RemoveUnchecked pool it reason =
     (case find (\<lambda>e. handle e = it) (mapRTx pool) of
        None \<Rightarrow> None
      | Some e \<Rightarrow>
          Some (pool\<lparr>signals := signals pool @
                        [(NotifyEntryRemoved (entry e) reason,
                          \<lparr>cs_held = True, seen = map handle (mapRTx pool)\<rparr>)],
                     mapRTx := filter (\<lambda>x. handle x \<noteq> it) (mapRTx pool),
                     mapLinks := AList.delete it (mapLinks pool)\<rparr>))"

fun RemoveStaged :: "ReferralTxMemPool \<Rightarrow> uint256 list \<Rightarrow> MemPoolRemovalReason \<Rightarrow> ReferralTxMemPool option" where
  "RemoveStaged pool [] reason = Some pool"
| "RemoveStaged pool (it # stage) reason =
     (case RemoveUnchecked pool it reason of
        None \<Rightarrow> None
      | Some pool' \<Rightarrow> RemoveStaged pool' stage reason)"

definition RemoveRecursive :: "ReferralTxMemPool \<Rightarrow> Referral \<Rightarrow> MemPoolRemovalReason \<Rightarrow> ReferralTxMemPool option" where
  "RemoveRecursive pool origRef reason =
     (case find (\<lambda>e. handle e = GetHash origRef) (mapRTx pool) of
        None \<Rightarrow> Some pool
      | Some e \<Rightarrow>
          (case CalculateDescendants pool (handle e) [] of
             None \<Rightarrow> None
           | Some toRemove \<Rightarrow> RemoveStaged pool toRemove reason))"

fun RemoveForBlock :: "ReferralTxMemPool \<Rightarrow> Referral list \<Rightarrow> ReferralTxMemPool option" where
  "RemoveForBlock pool [] = Some pool"
| "RemoveForBlock pool (ref # vRefs) =
     (case find (\<lambda>e. handle e = GetHash ref) (mapRTx pool) of
        None \<Rightarrow> RemoveForBlock pool vRefs
      | Some e \<Rightarrow>
          (case RemoveUnchecked pool (handle e) BLOCK of
             None \<Rightarrow> None
           | Some pool' \<Rightarrow> RemoveForBlock pool' vRefs))"

fun CalculateDescendants_each :: "ReferralTxMemPool \<Rightarrow> uint256 list \<Rightarrow> uint256 list \<Rightarrow> uint256 list option" where
  "CalculateDescendants_each pool [] stage = Some stage"
| "CalculateDescendants_each pool (removeit # toRemove) stage =
     (case CalculateDescendants pool removeit stage of
        None \<Rightarrow> None
      | Some stage' \<Rightarrow> CalculateDescendants_each pool toRemove stage')"

text \<open>
  \<open>Expire\<close> walks the \<open>entry_time\<close> index, the entries in ascending order of
  \<open>nTime\<close>, while the time is smaller than \<open>time\<close>.
\<close>

definition Expire :: "ReferralTxMemPool \<Rightarrow> int \<Rightarrow> (int \<times> ReferralTxMemPool) option" where
  "Expire pool time =
     (let toRemove = fold setEntries_insert
            (map handle (takeWhile (\<lambda>e. nTime e < time) (sort_key nTime (mapRTx pool)))) []
      in case CalculateDescendants_each pool toRemove [] of
           None \<Rightarrow> None
         | Some stage \<Rightarrow>
             (case RemoveStaged pool stage EXPIRY of
                None \<Rightarrow> None
              | Some pool' \<Rightarrow> Some (int (length stage), pool')))"

definition empty_pool :: ReferralTxMemPool where
  "empty_pool = \<lparr>mapRTx = [], mapLinks = [], signals = []\<rparr>"

definition E1 :: RefMemPoolEntry where
  "E1 = \<lparr>entry = R1, nTime = 100, entryHeight = 1\<rparr>"
definition E2 :: RefMemPoolEntry where
  "E2 = \<lparr>entry = R2, nTime = 200, entryHeight = 1\<rparr>"
definition E3 :: RefMemPoolEntry where
  "E3 = \<lparr>entry = R3, nTime = 300, entryHeight = 1\<rparr>"

text \<open>
  The child links of the pool as a relation, the pools that \<open>AddUnchecked\<close> builds from
  an empty pool, and the pools whose links map has an entry for exactly the entries of
  the index, with every child iterator pointing to an entry of the index.
\<close>

definition link_rel :: "(uint256 \<times> uint256 list) list \<Rightarrow> (uint256 \<times> uint256) set" where
  "link_rel links = {(p, c). c \<in> set (children_of links p)}"

definition wf_pool :: "ReferralTxMemPool \<Rightarrow> bool" where
  "wf_pool pool =
     (distinct (map handle (mapRTx pool)) \<and>
      dom (map_of (mapLinks pool)) = set (map handle (mapRTx pool)) \<and>
      (\<forall>p. set (children_of (mapLinks pool) p) \<subseteq> set (map handle (mapRTx pool))))"

inductive reachable :: "ReferralTxMemPool \<Rightarrow> bool" where
  cleared: "reachable (Clear pool)"
| added: "reachable pool \<Longrightarrow> reachable (snd (AddUnchecked pool hash e))"

definition links_closed :: "(uint256 \<times> uint256 list) list \<Rightarrow> uint256 list \<Rightarrow> bool" where
  "links_closed links d = (\<forall>x\<in>set d. set (children_of links x) \<subseteq> set d)"

text \<open>
  The parent relation that the entries of the index themselves define: \<open>c\<close> is a child
  of \<open>p\<close> when the \<open>parentAddress\<close> of \<open>c\<close> is the address of \<open>p\<close>. A pool is built
  parents first when every entry is added while no entry of the pool has its hash or
  its address and none names its address as \<open>parentAddress\<close>; adding a referral that
  is in the pool already is allowed. In a linked pool the links map holds exactly the
  parent relation of the index.
\<close>

definition par_rel :: "RefMemPoolEntry list \<Rightarrow> (uint256 \<times> uint256) set" where
  "par_rel rtx = {(handle p, handle c) | p c.
      p \<in> set rtx \<and> c \<in> set rtx \<and> parentAddress (entry c) = address (entry p)}"

inductive parents_first :: "ReferralTxMemPool \<Rightarrow> bool" where
  cleared: "parents_first (Clear pool)"
| added: "parents_first pool
    \<Longrightarrow> handle e \<notin> handle ` set (mapRTx pool)
    \<Longrightarrow> address (entry e) \<notin> (\<lambda>x. address (entry x)) ` set (mapRTx pool)
    \<Longrightarrow> address (entry e) \<notin> (\<lambda>x. parentAddress (entry x)) ` set (mapRTx pool)
    \<Longrightarrow> parents_first (snd (AddUnchecked pool hash e))"
| readded: "parents_first pool \<Longrightarrow> x \<in> set (mapRTx pool) \<Longrightarrow> entry e = entry x
    \<Longrightarrow> parents_first (snd (AddUnchecked pool hash e))"

definition linked_pool :: "ReferralTxMemPool \<Rightarrow> bool" where
  "linked_pool pool =
     (wf_pool pool \<and> distinct (map (\<lambda>x. address (entry x)) (mapRTx pool)) \<and>
      link_rel (mapLinks pool) = par_rel (mapRTx pool))"

text \<open>
  The spec's scenario 5 (E1, then its child E2, then E3, the child of E2), the same
  parent and child added child first, and the pool of E1 and E2 after E2 was confirmed
  in a block.
\<close>

definition pool123 :: ReferralTxMemPool where
  "pool123 = snd (AddUnchecked (snd (AddUnchecked (snd (AddUnchecked empty_pool 21 E1)) 22 E2)) 23 E3)"

definition child_first_pool :: ReferralTxMemPool where
  "child_first_pool = snd (AddUnchecked (snd (AddUnchecked empty_pool 22 E2)) 21 E1)"

definition pool12 :: ReferralTxMemPool where
  "pool12 = snd (AddUnchecked (snd (AddUnchecked empty_pool 21 E1)) 22 E2)"

definition stale_pool :: ReferralTxMemPool where
  "stale_pool = (case RemoveForBlock pool12 [R2] of None \<Rightarrow> pool12 | Some pool \<Rightarrow> pool)"

text \<open>
  A second referral with the address of R1, and the pool of E1, that referral and E2.
\<close>

definition R1twin :: Referral where
  "R1twin = \<lparr>address = 1, addressType = 1, pubKeyId = 1, codeHash = 19, previousReferral = 10,
         parentAddress = 0, GetHash = 29\<rparr>"

definition E1twin :: RefMemPoolEntry where
  "E1twin = \<lparr>entry = R1twin, nTime = 150, entryHeight = 1\<rparr>"

definition twin_pool :: ReferralTxMemPool where
  "twin_pool = snd (AddUnchecked (snd (AddUnchecked (snd (AddUnchecked empty_pool 21 E1)) 29 E1twin)) 22 E2)"

text \<open>
  The parent E1 with a child that entered the pool after it but carries an earlier
  entry time.
\<close>

definition E2early :: RefMemPoolEntry where
  "E2early = \<lparr>entry = R2, nTime = 50, entryHeight = 1\<rparr>"

definition child_older_pool :: ReferralTxMemPool where
  "child_older_pool = snd (AddUnchecked (snd (AddUnchecked empty_pool 21 E1)) 22 E2early)"

section \<open>Facts about the store\<close>

lemma Write_put_anv:
  assumes "Write (put_anv k v) db = (True, db')"
  shows "DB_ANV db' = (DB_ANV db)(k \<mapsto> v)" and "DB_PARENT_KEY db' = DB_PARENT_KEY db"
    and "DB_REFERRALS db' = DB_REFERRALS db" and "DB_CHILDREN db' = DB_CHILDREN db"
  using assms by (auto simp: Write_def put_anv_def split: list.splits if_splits)

lemma Write_put_referral:
  assumes "Write (put_referral k v) db = (True, db')"
  shows "DB_REFERRALS db' = (DB_REFERRALS db)(k \<mapsto> v)" and "DB_PARENT_KEY db' = DB_PARENT_KEY db"
    and "DB_ANV db' = DB_ANV db" and "DB_CHILDREN db' = DB_CHILDREN db"
  using assms by (auto simp: Write_def put_referral_def split: list.splits if_splits)

lemmas store_defs = InsertReferral_def Write_def put_referral_def put_anv_def put_parent_def
  put_children_def empty_db_def GetReferral_def GetChildren_def GetANV_def GetReferrer_def

lemma chain_db_eq:
  "chain_db = \<lparr>DB_REFERRALS = [1 \<mapsto> R1, 2 \<mapsto> R2, 3 \<mapsto> R3], DB_PARENT_KEY = [2 \<mapsto> 1, 3 \<mapsto> 2],
     DB_CHILDREN = [1 \<mapsto> [2], 2 \<mapsto> [3]],
     DB_ANV = [1 \<mapsto> (1, 1, 0), 2 \<mapsto> (1, 2, 0), 3 \<mapsto> (1, 3, 0)], write_ok = []\<rparr>"
  by (simp add: chain_db_def store_defs R1_def R2_def R3_def)

section \<open>InsertReferral with a missing parent\<close>

text \<open>
  C8, as stated, fails: the referral is written before its parent is resolved, so a
  referral whose \<open>parentAddress\<close> is its own \<open>address\<close> finds itself as parent and the
  insert returns true although no parent was resolvable before the call. And where the
  parent stays missing, a build with assertions stops at
  \<open>assert(false && "parent referral missing")\<close> instead of returning false.
\<close>

theorem InsertReferral_missing_parent_counterexample:
  "GetReferral empty_db (parentAddress Rself) = None
   \<and> fst (InsertReferral False empty_db Rself False) = Returned True
   \<and> fst (InsertReferral True empty_db Rself False) = Returned True
   \<and> GetReferral empty_db (parentAddress Rorphan) = None
   \<and> fst (InsertReferral False empty_db Rorphan False) = AssertFailed"
  by (simp add: store_defs Rself_def Rorphan_def)

text \<open>
  C8, amended: for every referral R whose parent is not resolvable in the store and is
  not R itself, \<open>InsertReferral(R, false)\<close> never returns true; when the writes of steps
  1 and 2 succeed it returns false under \<open>NDEBUG\<close> and stops at the assertion otherwise,
  and in both cases the referral record under R.address and the zero ANVRecord under
  R.pubKeyId are in the store, with no parent pointer or child list written.
\<close>

theorem InsertReferral_missing_parent:
  assumes parent: "GetReferral db (parentAddress R) = None"
    and neq: "parentAddress R \<noteq> address R"
    and run: "InsertReferral ndebug db R False = (res, db')"
  shows "res \<noteq> Returned True \<and>
    ((\<forall>ok\<in>set (take 2 (write_ok db)). ok) \<longrightarrow>
       res = (if ndebug then Returned False else AssertFailed) \<and>
       GetReferral db' (address R) = Some R \<and>
       GetANV db' (pubKeyId R) = Some (addressType R, pubKeyId R, 0) \<and>
       DB_PARENT_KEY db' = DB_PARENT_KEY db \<and> DB_CHILDREN db' = DB_CHILDREN db)"
proof (cases "write_ok db")
  case Nil
  with assms show ?thesis
    by (auto simp: store_defs split: if_splits)
next
  case (Cons ok1 rest)
  note first = this
  show ?thesis
  proof (cases rest)
    case Nil
    with first assms show ?thesis
      by (auto simp: store_defs split: if_splits)
  next
    case (Cons ok2 rest2)
    with first assms show ?thesis
      by (auto simp: store_defs split: if_splits)
  qed
qed

theorem InsertReferral_missing_parent_witness:
  "GetReferral empty_db (parentAddress Rorphan) = None
   \<and> parentAddress Rorphan \<noteq> address Rorphan
   \<and> fst (InsertReferral True empty_db Rorphan False) = Returned False
   \<and> GetReferral (snd (InsertReferral True empty_db Rorphan False)) (address Rorphan) = Some Rorphan
   \<and> GetANV (snd (InsertReferral True empty_db Rorphan False)) (pubKeyId Rorphan)
       = Some (addressType Rorphan, pubKeyId Rorphan, 0)"
proof -
  have h1: "GetReferral empty_db (parentAddress Rorphan) = None"
    by (simp add: store_defs)
  have h2: "parentAddress Rorphan \<noteq> address Rorphan"
    by (simp add: Rorphan_def)
  have h3: "InsertReferral True empty_db Rorphan False
     = (fst (InsertReferral True empty_db Rorphan False), snd (InsertReferral True empty_db Rorphan False))"
    by simp
  have h4: "\<forall>ok\<in>set (take 2 (write_ok empty_db)). ok"
    by (simp add: empty_db_def)
  from InsertReferral_missing_parent [OF h1 h2 h3] h4 h1 h2 show ?thesis
    by simp
qed

section \<open>The ANV record of a confirmed address\<close>

text \<open>
  C5: every address confirmed by a successful \<open>InsertReferral\<close> should have an
  ANVRecord that \<open>GetANV\<close> and \<open>UpdateANV\<close> find at that address. The insert writes the
  record under \<open>pubKeyId\<close>, while the referral and the parent pointer are keyed by
  \<open>address\<close> and \<open>UpdateANV\<close> reads at addresses: for a referral whose key id is not
  its address the insert succeeds and the confirmed address has no ANVRecord.
\<close>

theorem InsertReferral_anv_keyed_by_pubKeyId:
  "fst (InsertReferral False empty_db Rscript True) = Returned True
   \<and> GetReferral (snd (InsertReferral False empty_db Rscript True)) (address Rscript) = Some Rscript
   \<and> GetANV (snd (InsertReferral False empty_db Rscript True)) (address Rscript) = None
   \<and> GetANV (snd (InsertReferral False empty_db Rscript True)) (pubKeyId Rscript) = Some (2, 9, 0)
   \<and> fst (UpdateANV False (snd (InsertReferral False empty_db Rscript True)) 2 (address Rscript) 100)
       = Returned False"
  by (simp add: store_defs Rscript_def UpdateANV_def UpdateANV_loop.simps MAX_LEVELS_def)

section \<open>ANV propagation along the root path\<close>

lemma UpdateANV_loop_step:
  assumes "UpdateANV_loop ndebug db (Some a) level change = (Returned True, db')"
    and "level < MAX_LEVELS"
  obtains atype key amount db1 where
    "DB_ANV db a = Some (atype, key, amount)"
    "Write (put_anv a (atype, key, amount + change)) db = (True, db1)"
    "UpdateANV_loop ndebug db1 (GetReferrer db1 a) (level + 1) change = (Returned True, db')"
  using assms
  by (subst (asm) UpdateANV_loop.simps) (auto split: option.splits if_splits prod.splits bool.splits)

lemma UpdateANV_loop_None:
  assumes "UpdateANV_loop ndebug db None level change = (Returned True, db')"
  shows "db' = db"
  using assms
  by (subst (asm) UpdateANV_loop.simps) (auto split: if_splits)

lemma UpdateANV_loop_path:
  assumes "root_path (DB_PARENT_KEY db) a path" and "distinct path"
    and "level + length path \<le> MAX_LEVELS"
    and "UpdateANV_loop ndebug db (Some a) level change = (Returned True, db')"
  shows "DB_ANV db' = (\<lambda>x. if x \<in> set path then map_option (add_change change) (DB_ANV db x)
                          else DB_ANV db x) \<and> (\<forall>x\<in>set path. DB_ANV db x \<noteq> None)"
  using assms
proof (induction path arbitrary: db a level)
  case Nil
  then show ?case by simp
next
  case (Cons x rest)
  from Cons.prems(3) have lvl: "level < MAX_LEVELS" by simp
  from Cons.prems(1) have xa: "x = a" by (cases rest) auto
  from UpdateANV_loop_step [OF Cons.prems(4) lvl]
  obtain atype key amount db1 where
    rd: "DB_ANV db a = Some (atype, key, amount)"
    and wr: "Write (put_anv a (atype, key, amount + change)) db = (True, db1)"
    and rec: "UpdateANV_loop ndebug db1 (GetReferrer db1 a) (level + 1) change = (Returned True, db')"
    by blast
  have anv1: "DB_ANV db1 = (DB_ANV db)(a \<mapsto> (atype, key, amount + change))"
    and par1: "DB_PARENT_KEY db1 = DB_PARENT_KEY db"
    using Write_put_anv [OF wr] by simp_all
  show ?case
  proof (cases rest)
    case Nil
    with Cons.prems(1) have "DB_PARENT_KEY db a = None" by simp
    with rec par1 have "db' = db1"
      by (simp add: GetReferrer_def UpdateANV_loop_None)
    with anv1 rd xa Nil show ?thesis
      by (auto simp: add_change_def fun_eq_iff)
  next
    case (Cons y ys)
    with Cons.prems(1) have py: "DB_PARENT_KEY db a = Some y"
      and rp: "root_path (DB_PARENT_KEY db1) y rest"
      using par1 by simp_all
    from rec py par1
    have rec': "UpdateANV_loop ndebug db1 (Some y) (level + 1) change = (Returned True, db')"
      by (simp add: GetReferrer_def)
    have d: "distinct rest" and notin: "a \<notin> set rest"
      using Cons.prems(2) xa by simp_all
    have l: "(level + 1) + length rest \<le> MAX_LEVELS"
      using Cons.prems(3) by simp
    from Cons.IH [OF rp d l rec']
    have ih: "DB_ANV db' = (\<lambda>x. if x \<in> set rest then map_option (add_change change) (DB_ANV db1 x)
                          else DB_ANV db1 x)" and ih2: "\<forall>x\<in>set rest. DB_ANV db1 x \<noteq> None"
      by simp_all
    have c2: "\<forall>z\<in>set (x # rest). DB_ANV db z \<noteq> None"
    proof
      fix z assume z: "z \<in> set (x # rest)"
      show "DB_ANV db z \<noteq> None"
      proof (cases "z = a")
        case True
        with rd show ?thesis by simp
      next
        case False
        with z xa have "z \<in> set rest" by simp
        with ih2 have "DB_ANV db1 z \<noteq> None" by blast
        with False anv1 show ?thesis by simp
      qed
    qed
    have c1: "DB_ANV db' z = (if z \<in> set (x # rest) then map_option (add_change change) (DB_ANV db z)
                          else DB_ANV db z)" for z
    proof (cases "z = a")
      case True
      with ih notin have "DB_ANV db' z = DB_ANV db1 a" by simp
      with anv1 rd True xa show ?thesis by (simp add: add_change_def)
    next
      case False
      with ih anv1 xa show ?thesis by simp
    qed
    from c1 c2 show ?thesis by (simp only: fun_eq_iff) blast
  qed
qed

lemma sum_list_shift:
  fixes f g :: "'a \<Rightarrow> int"
  assumes "\<forall>x\<in>set xs. f x = g x + c"
  shows "sum_list (map f xs) = sum_list (map g xs) + c * int (length xs)"
  using assms by (induction xs) (auto simp: algebra_simps)

text \<open>
  C4: for an acyclic parent chain \<open>start \<rightarrow> parent \<rightarrow> \<dots> \<rightarrow> root\<close> of the store (no longer
  than the level bound \<open>MAX_LEVELS\<close> = 2^64 - 1 of the walk), a successful
  \<open>UpdateANV(addressType, start, change)\<close> found an ANVRecord at every address of the
  path and added \<open>change\<close> to the amount of each, the same at every level; every other
  ANVRecord is unchanged, and the sum of the amounts over the path grows by \<open>change\<close>
  times the length of the path.
\<close>

theorem UpdateANV_adds_change_on_root_path:
  assumes "root_path (DB_PARENT_KEY db) start path" and "distinct path"
    and "length path \<le> MAX_LEVELS"
    and "UpdateANV ndebug db atype start change = (Returned True, db')"
  shows "(\<forall>a\<in>set path. \<exists>t k amount. GetANV db a = Some (t, k, amount) \<and>
                                   GetANV db' a = Some (t, k, amount + change))
       \<and> (\<forall>a. a \<notin> set path \<longrightarrow> GetANV db' a = GetANV db a)
       \<and> sum_list (map (anv_amount db') path)
           = sum_list (map (anv_amount db) path) + change * int (length path)"
proof -
  from assms(4) have run: "UpdateANV_loop ndebug db (Some start) 0 change = (Returned True, db')"
    by (simp add: UpdateANV_def)
  from assms(3) have "0 + length path \<le> MAX_LEVELS" by simp
  from UpdateANV_loop_path [OF assms(1,2) this run]
  have eq: "DB_ANV db' = (\<lambda>x. if x \<in> set path then map_option (add_change change) (DB_ANV db x)
                          else DB_ANV db x)" and ex: "\<forall>x\<in>set path. DB_ANV db x \<noteq> None"
    by simp_all
  have on: "\<forall>a\<in>set path. \<exists>t k amount. GetANV db a = Some (t, k, amount) \<and>
                                   GetANV db' a = Some (t, k, amount + change)"
    using eq ex by (auto simp: GetANV_def add_change_def)
  have off: "\<forall>a. a \<notin> set path \<longrightarrow> GetANV db' a = GetANV db a"
    using eq by (simp add: GetANV_def)
  have "\<forall>a\<in>set path. anv_amount db' a = anv_amount db a + change"
    using on by (fastforce simp: anv_amount_def GetANV_def)
  then have "sum_list (map (anv_amount db') path)
           = sum_list (map (anv_amount db) path) + change * int (length path)"
    by (rule sum_list_shift)
  with on off show ?thesis by blast
qed

lemma chain_db_UpdateANV:
  "UpdateANV False chain_db 1 3 100
     = (Returned True, chain_db\<lparr>DB_ANV := [1 \<mapsto> (1, 1, 100), 2 \<mapsto> (1, 2, 100), 3 \<mapsto> (1, 3, 100)]\<rparr>)"
  by (simp add: chain_db_eq UpdateANV_def UpdateANV_loop.simps MAX_LEVELS_def CAmount_range_def
      Write_def put_anv_def GetReferrer_def fun_upd_twist)

theorem UpdateANV_adds_change_on_root_path_witness:
  "root_path (DB_PARENT_KEY chain_db) 3 [3, 2, 1] \<and> distinct [3, 2, 1 :: nat]
   \<and> length [3, 2, 1 :: nat] \<le> MAX_LEVELS
   \<and> fst (UpdateANV False chain_db 1 3 100) = Returned True
   \<and> GetANV (snd (UpdateANV False chain_db 1 3 100)) 1 = Some (1, 1, 100)
   \<and> GetANV (snd (UpdateANV False chain_db 1 3 100)) 2 = Some (1, 2, 100)
   \<and> GetANV (snd (UpdateANV False chain_db 1 3 100)) 3 = Some (1, 3, 100)
   \<and> GetANV (snd (UpdateANV False chain_db 1 3 100)) 4 = GetANV chain_db 4
   \<and> sum_list (map (anv_amount (snd (UpdateANV False chain_db 1 3 100))) [3, 2, 1])
       = sum_list (map (anv_amount chain_db) [3, 2, 1]) + 100 * 3"
proof -
  have h1: "root_path (DB_PARENT_KEY chain_db) 3 [3, 2, 1]"
    by (simp add: chain_db_eq)
  have h2: "distinct [3, 2, 1 :: nat]" by simp
  have h3: "length [3, 2, 1 :: nat] \<le> MAX_LEVELS" by (simp add: MAX_LEVELS_def)
  have h4: "UpdateANV False chain_db 1 3 100
     = (Returned True, snd (UpdateANV False chain_db 1 3 100))"
    by (simp add: chain_db_UpdateANV)
  from UpdateANV_adds_change_on_root_path [OF h1 h2 h3 h4] h1 h3
  show ?thesis
    unfolding chain_db_UpdateANV snd_conv fst_conv
    by (simp add: GetANV_def chain_db_eq anv_amount_def)
qed

section \<open>The batch orderer\<close>



lemma insert_roots_empty: "insert_roots roots (\<lambda>h. []) = (\<lambda>h. [])"
  unfolding insert_roots_def by (induction roots) (auto simp: fun_upd_idem)

lemma insert_disconnected_at:
  "insert_disconnected interior graph h
     = graph h @ filter (\<lambda>ref. previousReferral ref = h) interior"
  unfolding insert_disconnected_def by (induction interior arbitrary: graph) auto

lemma graph_children:
  "insert_disconnected interior (insert_roots roots (\<lambda>h. [])) h
     = filter (\<lambda>ref. previousReferral ref = h) interior"
  by (simp add: insert_roots_empty insert_disconnected_at)

lemma bfs_walk_stop:
  "to_process = [] \<or> \<not> replace < length refs
     \<Longrightarrow> bfs_walk graph to_process refs replace = (to_process, refs, replace)"
  by (subst bfs_walk.simps) auto

lemma bfs_walk_go:
  "to_process \<noteq> [] \<Longrightarrow> replace < length refs
     \<Longrightarrow> bfs_walk graph to_process refs replace
         = bfs_walk graph (tl to_process @ graph (codeHash (hd to_process)))
             (refs[replace := hd to_process]) (replace + 1)"
  by (subst bfs_walk.simps) simp

lemma bfs_walk_invariant:
  assumes "P to_process refs replace"
    and "\<And>q rs k. P q rs k \<Longrightarrow> q \<noteq> [] \<Longrightarrow> k < length rs
           \<Longrightarrow> P (tl q @ graph (codeHash (hd q))) (rs[k := hd q]) (k + 1)"
    and "bfs_walk graph to_process refs replace = (q', refs', k')"
  shows "P q' refs' k' \<and> (q' = [] \<or> \<not> k' < length refs')"
  using assms
proof (induction graph to_process refs replace rule: bfs_walk.induct)
  case (1 graph to_process refs replace)
  show ?case
  proof (cases "to_process \<noteq> [] \<and> replace < length refs")
    case True
    then have ne: "to_process \<noteq> []" and lt: "replace < length refs" by simp_all
    have call: "bfs_walk graph (tl to_process @ graph (codeHash (hd to_process)))
                 (refs[replace := hd to_process]) (replace + 1) = (q', refs', k')"
      using "1.prems"(3) bfs_walk_go [OF ne lt] by simp
    have "P (tl to_process @ graph (codeHash (hd to_process)))
                 (refs[replace := hd to_process]) (replace + 1)"
      using "1.prems"(1) ne lt by (rule "1.prems"(2))
    then show ?thesis using "1.prems"(2) call by (rule "1.IH" [OF True])
  next
    case False
    then have "to_process = [] \<or> \<not> replace < length refs" by simp
    from bfs_walk_stop [OF this] "1.prems"(3)
    have "q' = to_process" "refs' = refs" "k' = replace" by simp_all
    with "1.prems"(1) False show ?thesis by simp
  qed
qed



lemma genesis_db_referrals: "DB_REFERRALS genesis_db = [10 \<mapsto> Rgenesis]"
  by (simp add: genesis_db_def store_defs Rgenesis_def)

lemmas order_defs = OrderReferrals_def GetReferral_def genesis_db_referrals
  insert_disconnected_def insert_roots_def bfs_walk.simps


lemma take_Suc_update:
  "k < length rs \<Longrightarrow> take (Suc k) (rs[k := y]) = take k rs @ [y]"
  by (simp add: take_Suc_conv_app_nth)

lemma order_inv_step:
  assumes inv: "order_inv roots graph q rs k" and q: "q \<noteq> []" and k: "k < length rs"
  shows "order_inv roots graph (tl q @ graph (codeHash (hd q))) (rs[k := hd q]) (k + 1)"
proof -
  from q have qs: "q = hd q # tl q" by simp
  from inv have eq: "take k rs @ q = roots @ concat (map (\<lambda>r. graph (codeHash r)) (take k rs))"
    by (simp add: order_inv_def)
  have "(take k rs @ [hd q]) @ tl q @ graph (codeHash (hd q))
          = (take k rs @ q) @ graph (codeHash (hd q))"
    using qs by (metis append.assoc append_Cons append_Nil)
  also have "\<dots> = roots @ concat (map (\<lambda>r. graph (codeHash r)) (take k rs @ [hd q]))"
    using eq by simp
  finally show ?thesis
    using k by (simp add: order_inv_def take_Suc_update)
qed

lemma std_partition_partitioned:
  assumes "\<forall>x\<in>set ts. pred x" and "\<forall>x\<in>set fs. \<not> pred x"
  shows "std_partition pred (ts @ fs) = (ts, fs)"
  using assms
proof (induction ts)
  case Nil
  show ?case
  proof (cases fs)
    case Nil
    then show ?thesis by simp
  next
    case (Cons x xs)
    with Nil.prems have "\<not> pred x" and "dropWhile (\<lambda>y. \<not> pred y) (rev xs) = []"
      by simp_all
    with Cons show ?thesis by (simp del: dropWhile_eq_Nil_conv)
  qed
next
  case (Cons t ts)
  then show ?case by simp
qed

lemma OrderReferrals_TrueD:
  assumes "OrderReferrals db refs = (True, refs')" and "refs \<noteq> []"
    and "std_partition (\<lambda>ref. GetReferral db (previousReferral ref) \<noteq> None) refs = (roots, interior)"
  shows "roots \<noteq> [] \<and>
     bfs_walk (insert_disconnected interior (insert_roots roots (\<lambda>h. []))) roots (roots @ interior) 0
       = ([], refs', length refs')"
proof -
  define graph where "graph = insert_disconnected interior (insert_roots roots (\<lambda>h. []))"
  from assms
  have res: "(case bfs_walk graph roots (roots @ interior) 0 of
               (to_process, rs, replace) \<Rightarrow>
                 if replace \<noteq> length rs \<or> to_process \<noteq> [] then (False, rs) else (True, rs))
             = (True, refs')" and ne: "roots \<noteq> []"
    by (simp_all add: OrderReferrals_def graph_def split: if_splits)
  obtain q' rs' k' where walk0: "bfs_walk graph roots (roots @ interior) 0 = (q', rs', k')"
    by (cases "bfs_walk graph roots (roots @ interior) 0")
  with res have "k' = length refs'" "q' = []" "rs' = refs'"
    by (simp_all split: if_splits)
  with walk0 ne show ?thesis by (simp add: graph_def)
qed

text \<open>
  C3, as stated, fails: \<open>std::partition\<close> does not keep the relative order of the
  elements. In the batch [R2, R1, R5] the roots R1 and R5 follow the interior referral
  R2; the partition swaps R2 with the last root R5, and the walk emits R5 before R1.
\<close>

theorem OrderReferrals_order_counterexample:
  "GetReferral genesis_db (previousReferral R1) \<noteq> None
   \<and> GetReferral genesis_db (previousReferral R5) \<noteq> None
   \<and> [R2, R1, R5] ! 1 = R1 \<and> [R2, R1, R5] ! 2 = R5
   \<and> std_partition (\<lambda>ref. GetReferral genesis_db (previousReferral ref) \<noteq> None) [R2, R1, R5]
       = ([R5, R1], [R2])
   \<and> OrderReferrals genesis_db [R2, R1, R5] = (True, [R5, R1, R2])
   \<and> [R5, R1, R2] ! 0 = R5 \<and> [R5, R1, R2] ! 1 = R1 \<and> R1 \<noteq> R5"
  by (simp add: order_defs R1_def R2_def R5_def)

text \<open>
  C3, amended: when \<open>OrderReferrals\<close> returns true, the vector it leaves is the roots, in
  the order in which \<open>std::partition\<close> left them, followed by the children of each
  emitted referral in turn (the interior referrals whose \<open>previousReferral\<close> is its
  \<open>codeHash\<close>), siblings in the order in which \<open>std::partition\<close> left them in the
  interior group. When every root of the input batch precedes every interior referral,
  \<open>std::partition\<close> moves nothing: the two groups are the roots and the interior
  referrals in their input order.
\<close>

theorem OrderReferrals_order:
  assumes "OrderReferrals db refs = (True, refs')"
    and "std_partition (\<lambda>ref. GetReferral db (previousReferral ref) \<noteq> None) refs = (roots, interior)"
  shows "refs' = roots @ concat (map (\<lambda>r. filter (\<lambda>c. previousReferral c = codeHash r) interior) refs')
    \<and> ((\<exists>n. (\<forall>x\<in>set (take n refs). GetReferral db (previousReferral x) \<noteq> None)
            \<and> (\<forall>x\<in>set (drop n refs). GetReferral db (previousReferral x) = None))
        \<longrightarrow> roots = filter (\<lambda>x. GetReferral db (previousReferral x) \<noteq> None) refs
          \<and> interior = filter (\<lambda>x. GetReferral db (previousReferral x) = None) refs)"
proof -
  let ?rt = "\<lambda>ref. GetReferral db (previousReferral ref) \<noteq> None"
  define graph where "graph = insert_disconnected interior (insert_roots roots (\<lambda>h. []))"
  have g: "graph h = filter (\<lambda>c. previousReferral c = h) interior" for h
    by (simp add: graph_def graph_children)
  have first: "refs' = roots @ concat (map (\<lambda>r. filter (\<lambda>c. previousReferral c = codeHash r) interior) refs')"
  proof (cases "refs = []")
    case True
    with assms show ?thesis by (simp add: OrderReferrals_def)
  next
    case False
    from OrderReferrals_TrueD [OF assms(1) False assms(2)]
    have walk: "bfs_walk graph roots (roots @ interior) 0 = ([], refs', length refs')"
      by (simp add: graph_def)
    have init: "order_inv roots graph roots (roots @ interior) 0"
      by (simp add: order_inv_def)
    have step: "order_inv roots graph (tl q @ graph (codeHash (hd q))) (rs[k := hd q]) (k + 1)"
      if "order_inv roots graph q rs k" "q \<noteq> []" "k < length rs" for q rs k
      using that by (rule order_inv_step)
    have "order_inv roots graph [] refs' (length refs')"
      using bfs_walk_invariant [where P = "order_inv roots graph" and graph = graph,
            OF init step walk] by simp
    then show ?thesis by (simp add: order_inv_def g)
  qed
  have second: "roots = filter ?rt refs \<and> interior = filter (\<lambda>x. GetReferral db (previousReferral x) = None) refs"
    if "\<exists>n. (\<forall>x\<in>set (take n refs). ?rt x) \<and> (\<forall>x\<in>set (drop n refs). GetReferral db (previousReferral x) = None)"
  proof -
    from that obtain n where t: "\<forall>x\<in>set (take n refs). ?rt x"
      and d: "\<forall>x\<in>set (drop n refs). \<not> ?rt x" by auto
    from std_partition_partitioned [of "take n refs" ?rt "drop n refs", OF t d] assms(2)
    have r: "roots = take n refs" and i: "interior = drop n refs" by simp_all
    have "filter ?rt refs = filter ?rt (take n refs @ drop n refs)" by simp
    also have "\<dots> = take n refs" using t d by (simp only: filter_append) (simp add: filter_id_conv filter_empty_conv)
    finally have a: "filter ?rt refs = take n refs" .
    have "filter (\<lambda>x. \<not> ?rt x) refs = filter (\<lambda>x. \<not> ?rt x) (take n refs @ drop n refs)" by simp
    also have "\<dots> = drop n refs" using t d by (simp only: filter_append) (simp add: filter_id_conv filter_empty_conv)
    finally have b: "filter (\<lambda>x. \<not> ?rt x) refs = drop n refs" .
    from a b r i show ?thesis by simp
  qed
  from first second show ?thesis by blast
qed

lemma OrderReferrals_partitioned_batch:
  "OrderReferrals genesis_db [R1, R5, R2] = (True, [R1, R5, R2])"
  by (simp add: order_defs R1_def R2_def R5_def)

lemma std_partition_partitioned_batch:
  "std_partition (\<lambda>ref. GetReferral genesis_db (previousReferral ref) \<noteq> None) [R1, R5, R2]
     = ([R1, R5], [R2])"
  by (simp add: order_defs R1_def R2_def R5_def)

theorem OrderReferrals_order_witness:
  "OrderReferrals genesis_db [R1, R5, R2] = (True, [R1, R5, R2])
   \<and> std_partition (\<lambda>ref. GetReferral genesis_db (previousReferral ref) \<noteq> None) [R1, R5, R2]
       = ([R1, R5], [R2])
   \<and> [R1, R5, R2] = [R1, R5] @ concat (map (\<lambda>r. filter (\<lambda>c. previousReferral c = codeHash r) [R2])
                                          [R1, R5, R2])
   \<and> [R1, R5] = filter (\<lambda>x. GetReferral genesis_db (previousReferral x) \<noteq> None) [R1, R5, R2]
   \<and> [R2] = filter (\<lambda>x. GetReferral genesis_db (previousReferral x) = None) [R1, R5, R2]"
proof -
  have "(\<forall>x\<in>set (take 2 [R1, R5, R2]). GetReferral genesis_db (previousReferral x) \<noteq> None)
      \<and> (\<forall>x\<in>set (drop 2 [R1, R5, R2]). GetReferral genesis_db (previousReferral x) = None)"
    by (simp add: GetReferral_def genesis_db_referrals R1_def R2_def R5_def)
  then have "\<exists>n. (\<forall>x\<in>set (take n [R1, R5, R2]). GetReferral genesis_db (previousReferral x) \<noteq> None)
      \<and> (\<forall>x\<in>set (drop n [R1, R5, R2]). GetReferral genesis_db (previousReferral x) = None)"
    by (rule exI)
  with OrderReferrals_order [OF OrderReferrals_partitioned_batch std_partition_partitioned_batch]
    OrderReferrals_partitioned_batch std_partition_partitioned_batch
  show ?thesis by blast
qed












section \<open>Flush of the cache\<close>

lemma Flush_loop_frame:
  "Flush_loop ndebug db prs = (res, db') \<Longrightarrow>
     (res = Returned () \<longrightarrow> db' = fold (\<lambda>pr db. snd (InsertReferral ndebug db (snd pr) False)) prs db)
   \<and> (ndebug \<longrightarrow> res = Returned ())"
proof (induction prs arbitrary: db)
  case Nil
  then show ?case by simp
next
  case (Cons pr rest)
  obtain r1 db1 where ins: "InsertReferral ndebug db (snd pr) False = (r1, db1)"
    by (cases "InsertReferral ndebug db (snd pr) False")
  show ?case
  proof (cases r1)
    case (Returned ok)
    with ins Cons.prems have "Flush_loop ndebug db1 rest = (res, db')" by simp
    from Cons.IH [OF this] ins show ?thesis by simp
  next
    case AssertFailed
    with ins Cons.prems have r: "res = AssertFailed" by simp
    from ins AssertFailed have "\<not> ndebug"
      by (auto simp: InsertReferral_def split: prod.splits bool.splits option.splits if_splits)
    with r show ?thesis by simp
  next
    case UndefinedBehaviour
    with ins have False
      by (auto simp: InsertReferral_def split: prod.splits bool.splits option.splits if_splits)
    then show ?thesis ..
  qed
qed

lemma Cache_GetReferrer_cached:
  "Cache_GetReferrer c0 a = (Some p, c) \<Longrightarrow> map_of (m_wallet_to_referrer c) a = Some p"
  by (auto simp: Cache_GetReferrer_def InsertWalletRelationshipIntoCache_def map_add_def
      split: option.splits if_splits)

lemma Cache_WalletIdExists_cached:
  "Cache_WalletIdExists c0 a = (True, c) \<Longrightarrow> map_of (m_wallet_to_referrer c) a \<noteq> None"
  by (auto simp: Cache_WalletIdExists_def InsertWalletRelationshipIntoCache_def map_add_def
      split: option.splits if_splits)

lemmas cache_defs = Flush_def Cache_GetReferral_def Cache_GetReferrer_def Cache_WalletIdExists_def
  InsertReferralIntoCache_def InsertWalletRelationshipIntoCache_def

lemma genesis_cache_eq:
  "genesis_cache = \<lparr>m_db = genesis_db, m_referral_cache = [(10, Rgenesis)], m_wallet_to_referrer = []\<rparr>"
  by (simp add: genesis_cache_def cache_defs GetReferral_def genesis_db_referrals Rgenesis_def)

text \<open>
  C10, as stated, fails: \<open>Flush\<close> passes no \<open>allow_no_parent\<close>, so the insert of a
  cached referral whose parent is not in the store stops at the assertion
  "parent referral missing" (a build with assertions), and the map is not cleared. The
  cache below holds the root referral of the store, cached by one \<open>GetReferral\<close>.
\<close>

theorem Flush_frame_counterexample:
  "fst (Flush False genesis_cache) = AssertFailed
   \<and> m_referral_cache (snd (Flush False genesis_cache)) = [(10, Rgenesis)]"
  by (simp add: genesis_cache_eq Flush_def genesis_db_def store_defs Rgenesis_def)

text \<open>
  C10, amended: for every cache state, \<open>Flush()\<close> leaves the wallet-to-referrer map
  unchanged (every child-to-parent entry cached by \<open>GetReferrer\<close> or \<open>WalletIdExists\<close>
  before is still there), also when it is stopped. When no insert stops at the
  "parent referral missing" assertion, as in every build without assertions, it invokes
  the store's \<open>InsertReferral\<close> once for each referral of the referral-by-address map,
  in the map's iteration order, and then leaves that map empty.
\<close>

theorem Flush_frame:
  assumes "Flush ndebug c = (res, c')"
  shows "m_wallet_to_referrer c' = m_wallet_to_referrer c
   \<and> (Cache_GetReferrer c0 a = (Some p, c) \<longrightarrow> map_of (m_wallet_to_referrer c') a = Some p)
   \<and> (Cache_WalletIdExists c0 a = (True, c) \<longrightarrow> map_of (m_wallet_to_referrer c') a \<noteq> None)
   \<and> (res = Returned () \<longrightarrow>
        m_referral_cache c' = [] \<and>
        m_db c' = fold (\<lambda>pr db. snd (InsertReferral ndebug db (snd pr) False))
                    (m_referral_cache c) (m_db c))
   \<and> (ndebug \<longrightarrow> res = Returned ())"
proof -
  obtain r db' where loop: "Flush_loop ndebug (m_db c) (m_referral_cache c) = (r, db')"
    by (cases "Flush_loop ndebug (m_db c) (m_referral_cache c)")
  note fr = Flush_loop_frame [OF loop]
  have w: "m_wallet_to_referrer c' = m_wallet_to_referrer c"
    using assms loop by (cases r) (auto simp: Flush_def)
  have fin: "res = Returned () \<longrightarrow>
        m_referral_cache c' = [] \<and>
        m_db c' = fold (\<lambda>pr db. snd (InsertReferral ndebug db (snd pr) False))
                    (m_referral_cache c) (m_db c)"
    using assms loop fr by (cases r) (auto simp: Flush_def)
  have nd: "ndebug \<longrightarrow> res = Returned ()"
    using assms loop fr by (cases r) (auto simp: Flush_def)
  from w fin nd Cache_GetReferrer_cached [of c0 a p c] Cache_WalletIdExists_cached [of c0 a c]
  show ?thesis by simp
qed

lemma chain_cache_eq:
  "chain_cache = \<lparr>m_db = chain_db, m_referral_cache = [(2, R2)], m_wallet_to_referrer = [(3, 2)]\<rparr>"
  by (simp add: chain_cache_def cache_defs GetReferral_def GetReferrer_def chain_db_eq R2_def)

lemma chain_cache_Flush:
  "fst (Flush False chain_cache) = Returned ()"
  by (simp add: chain_cache_eq Flush_def chain_db_eq store_defs R1_def R2_def)

theorem Flush_frame_witness:
  "fst (Flush False chain_cache) = Returned ()
   \<and> m_wallet_to_referrer (snd (Flush False chain_cache)) = [(3, 2)]
   \<and> m_referral_cache (snd (Flush False chain_cache)) = []
   \<and> m_db (snd (Flush False chain_cache))
       = snd (InsertReferral False (m_db chain_cache) R2 False)"
proof -
  have h: "Flush False chain_cache = (fst (Flush False chain_cache), snd (Flush False chain_cache))"
    by simp
  from Flush_frame [OF h] chain_cache_Flush
  show ?thesis by (simp add: chain_cache_eq)
qed

section \<open>The callback of AddUnchecked\<close>

text \<open>
  C9, as stated, fails: \<open>NotifyEntryAdded\<close> is the first statement of \<open>AddUnchecked\<close>,
  before \<open>LOCK(cs)\<close> and before the insert. The observer of the first entry of an empty
  pool sees an empty index, and the call has not taken the lock.
\<close>

theorem AddUnchecked_notifies_before_insert_counterexample:
  "signals (snd (AddUnchecked empty_pool 21 E1))
     = [(NotifyEntryAdded R1, \<lparr>cs_held = False, seen = []\<rparr>)]
   \<and> map handle (mapRTx (snd (AddUnchecked empty_pool 21 E1))) = [21]"
  by (simp add: AddUnchecked_def empty_pool_def E1_def R1_def handle_def)


text \<open>
  C9, amended: every call \<open>AddUnchecked(hash, entry)\<close> returns true and fires
  \<open>NotifyEntryAdded\<close> once, first: before the call takes the lock and before the insert,
  so an observer running at the callback sees the primary index as it was before the
  call. When the call returns, the entry's hash is in the primary index and has a links
  entry.
\<close>

theorem AddUnchecked_notifies_before_insert:
  "fst (AddUnchecked pool hash e) = True
   \<and> signals (snd (AddUnchecked pool hash e))
       = signals pool @ [(NotifyEntryAdded (entry e),
                          \<lparr>cs_held = False, seen = map handle (mapRTx pool)\<rparr>)]
   \<and> handle e \<in> set (map handle (mapRTx (snd (AddUnchecked pool hash e))))
   \<and> map_of (mapLinks (snd (AddUnchecked pool hash e))) (handle e) \<noteq> None"
  by (auto simp: AddUnchecked_def Let_def update_conv' map_add_def split: option.splits)

theorem AddUnchecked_notifies_before_insert_witness:
  "fst (AddUnchecked empty_pool 21 E1) = True
   \<and> signals (snd (AddUnchecked empty_pool 21 E1))
       = signals empty_pool @ [(NotifyEntryAdded (entry E1),
                                \<lparr>cs_held = False, seen = map handle (mapRTx empty_pool)\<rparr>)]
   \<and> handle E1 \<in> set (map handle (mapRTx (snd (AddUnchecked empty_pool 21 E1))))"
  using AddUnchecked_notifies_before_insert [of empty_pool 21 E1] by simp

section \<open>Removal of descendants from the mempool\<close>

lemma distinct_setEntries_insert: "distinct s \<Longrightarrow> distinct (setEntries_insert it s)"
  by (simp add: setEntries_insert_def distinct_insort)

lemma closed_contains:
  assumes "S \<subseteq> T" and "\<forall>x\<in>T. \<forall>z. (x, z) \<in> R \<longrightarrow> z \<in> T"
  shows "R\<^sup>* `` S \<subseteq> T"
proof
  fix y assume "y \<in> R\<^sup>* `` S"
  then obtain s where s: "s \<in> S" and r: "(s, y) \<in> R\<^sup>*" by blast
  from r s assms show "y \<in> T"
    by (induction rule: rtrancl_induct) blast+
qed

lemma CalculateDescendants_loop_correct:
  assumes "\<forall>p. set (children_of links p) \<subseteq> dom (map_of links)"
    and "set stage \<subseteq> dom (map_of links)"
    and "\<forall>x\<in>set d. set (children_of links x) \<subseteq> set d \<union> set stage"
    and "distinct d"
  shows "\<exists>d'. CalculateDescendants_loop links stage d = Some d'
           \<and> set d' = set d \<union> (link_rel links)\<^sup>* `` set stage \<and> distinct d'"
  using assms
proof (induction links stage d rule: CalculateDescendants_loop.induct)
  case (1 links d)
  then show ?case by simp
next
  case (2 links it rest d)
  let ?R = "link_rel links"
  from "2.prems"(2) obtain cs where look: "map_of links it = Some cs" by auto
  then have cs: "children_of links it = cs" by (simp add: children_of_def)
  let ?d' = "setEntries_insert it d"
  let ?s' = "stage_children ?d' cs (removeAll it rest)"
  have sd': "set ?d' = insert it (set d)" by (rule set_setEntries_insert)
  have ss': "set ?s' = (set rest - {it}) \<union> (set cs - insert it (set d))"
    by (simp add: set_stage_children sd')
  have csdom: "set cs \<subseteq> dom (map_of links)"
    using "2.prems"(1) cs by metis
  have restdom: "set rest \<subseteq> dom (map_of links)"
    using "2.prems"(2) by simp
  have p2: "set ?s' \<subseteq> dom (map_of links)"
    unfolding ss' using csdom restdom by blast
  have p3: "\<forall>x\<in>set ?d'. set (children_of links x) \<subseteq> set ?d' \<union> set ?s'"
  proof
    fix x assume "x \<in> set ?d'"
    then consider "x = it" | "x \<in> set d" by (auto simp: sd')
    then show "set (children_of links x) \<subseteq> set ?d' \<union> set ?s'"
    proof cases
      case 1
      with cs have "set (children_of links x) = set cs" by simp
      then show ?thesis unfolding sd' ss' by blast
    next
      case 2
      with "2.prems"(3) have "set (children_of links x) \<subseteq> set d \<union> insert it (set rest)" by simp
      then show ?thesis unfolding sd' ss' by blast
    qed
  qed
  have p4: "distinct ?d'" using "2.prems"(4) by (rule distinct_setEntries_insert)
  from "2.IH" [OF look "2.prems"(1) p2 p3 p4]
  obtain d' where run: "CalculateDescendants_loop links ?s' ?d' = Some d'"
    and res: "set d' = set ?d' \<union> ?R\<^sup>* `` set ?s'" and dd: "distinct d'" by blast
  have step: "CalculateDescendants_loop links (it # rest) d = Some d'"
    using look run by simp
  have sub1: "set ?d' \<union> ?R\<^sup>* `` set ?s' \<subseteq> set d \<union> ?R\<^sup>* `` set (it # rest)"
  proof -
    have a: "set ?s' \<subseteq> ?R\<^sup>* `` set (it # rest)"
    proof
      fix x assume "x \<in> set ?s'"
      then consider "x \<in> set rest" | "x \<in> set cs" unfolding ss' by blast
      then show "x \<in> ?R\<^sup>* `` set (it # rest)"
      proof cases
        case 1
        then have "x \<in> set (it # rest)" by simp
        then show ?thesis by (rule ImageI [rotated]) simp
      next
        case 2
        with cs have "(it, x) \<in> ?R" by (simp add: link_rel_def)
        then have "(it, x) \<in> ?R\<^sup>*" by (rule r_into_rtrancl)
        moreover have "it \<in> set (it # rest)" by simp
        ultimately show ?thesis by (rule ImageI)
      qed
    qed
    have b: "\<forall>x\<in>?R\<^sup>* `` set (it # rest). \<forall>z. (x, z) \<in> ?R \<longrightarrow> z \<in> ?R\<^sup>* `` set (it # rest)"
      by (meson Image_iff rtrancl_into_rtrancl)
    have "?R\<^sup>* `` set ?s' \<subseteq> ?R\<^sup>* `` set (it # rest)"
      using a b by (rule closed_contains)
    moreover have "it \<in> ?R\<^sup>* `` set (it # rest)"
      by (rule ImageI [of it it]) simp_all
    ultimately show ?thesis unfolding sd' by blast
  qed
  have sub2: "set d \<union> ?R\<^sup>* `` set (it # rest) \<subseteq> set ?d' \<union> ?R\<^sup>* `` set ?s'"
  proof -
    let ?T = "set ?d' \<union> ?R\<^sup>* `` set ?s'"
    have closed: "\<forall>x\<in>?T. \<forall>z. (x, z) \<in> ?R \<longrightarrow> z \<in> ?T"
    proof (intro ballI allI impI)
      fix x z assume x: "x \<in> ?T" and xz: "(x, z) \<in> ?R"
      from x show "z \<in> ?T"
      proof
        assume xd: "x \<in> set ?d'"
        from xz have "z \<in> set (children_of links x)" by (simp add: link_rel_def)
        with p3 xd have "z \<in> set ?d' \<union> set ?s'" by blast
        then show ?thesis by blast
      next
        assume "x \<in> ?R\<^sup>* `` set ?s'"
        with xz have "z \<in> ?R\<^sup>* `` set ?s'" by (meson Image_iff rtrancl_into_rtrancl)
        then show ?thesis by simp
      qed
    qed
    have "set rest \<subseteq> insert it (set ?s')" unfolding ss' by blast
    then have "set (it # rest) \<subseteq> ?T" unfolding sd' by auto
    from closed_contains [OF this closed] show ?thesis unfolding sd' by blast
  qed
  from step res dd sub1 sub2 show ?case by blast
qed

lemma links_closed_rtrancl:
  assumes "links_closed links d"
  shows "(link_rel links)\<^sup>* `` set d \<subseteq> set d"
proof (rule closed_contains)
  show "set d \<subseteq> set d" by simp
  show "\<forall>x\<in>set d. \<forall>z. (x, z) \<in> link_rel links \<longrightarrow> z \<in> set d"
    using assms by (auto simp: links_closed_def link_rel_def)
qed

lemma links_closed_union:
  assumes "links_closed links d" and "set d' = set d \<union> (link_rel links)\<^sup>* `` S"
  shows "links_closed links d'"
  unfolding links_closed_def
proof (intro ballI subsetI)
  fix x z assume x: "x \<in> set d'" and z: "z \<in> set (children_of links x)"
  then have xz: "(x, z) \<in> link_rel links" by (simp add: link_rel_def)
  from x assms(2) consider "x \<in> set d" | "x \<in> (link_rel links)\<^sup>* `` S" by blast
  then show "z \<in> set d'"
  proof cases
    case 1
    with assms(1) z have "z \<in> set d" by (auto simp: links_closed_def)
    with assms(2) show ?thesis by simp
  next
    case 2
    with xz have "z \<in> (link_rel links)\<^sup>* `` S" by (meson Image_iff rtrancl_into_rtrancl)
    with assms(2) show ?thesis by simp
  qed
qed

lemma CalculateDescendants_correct:
  assumes wf: "\<forall>p. set (children_of (mapLinks pool) p) \<subseteq> dom (map_of (mapLinks pool))"
    and it: "entryit \<in> dom (map_of (mapLinks pool))"
    and cl: "links_closed (mapLinks pool) d" and dd: "distinct d"
  shows "\<exists>d'. CalculateDescendants pool entryit d = Some d'
           \<and> set d' = set d \<union> (link_rel (mapLinks pool))\<^sup>* `` {entryit}
           \<and> distinct d' \<and> links_closed (mapLinks pool) d'"
proof (cases "entryit \<in> set d")
  case True
  then have "(link_rel (mapLinks pool))\<^sup>* `` {entryit} \<subseteq> (link_rel (mapLinks pool))\<^sup>* `` set d"
    by blast
  with links_closed_rtrancl [OF cl] have "set d = set d \<union> (link_rel (mapLinks pool))\<^sup>* `` {entryit}"
    by blast
  with True cl dd show ?thesis by (simp add: CalculateDescendants_def)
next
  case False
  have p2: "set [entryit] \<subseteq> dom (map_of (mapLinks pool))" using it by simp
  have p3: "\<forall>x\<in>set d. set (children_of (mapLinks pool) x) \<subseteq> set d \<union> set [entryit]"
    using cl by (auto simp: links_closed_def)
  from CalculateDescendants_loop_correct [OF wf p2 p3 dd]
  obtain d' where run: "CalculateDescendants_loop (mapLinks pool) [entryit] d = Some d'"
    and res: "set d' = set d \<union> (link_rel (mapLinks pool))\<^sup>* `` set [entryit]" and d': "distinct d'"
    by blast
  from res have res': "set d' = set d \<union> (link_rel (mapLinks pool))\<^sup>* `` {entryit}" by simp
  from links_closed_union [OF cl res'] run res' d' False show ?thesis
    by (simp add: CalculateDescendants_def)
qed

lemma CalculateDescendants_each_correct:
  assumes wf: "\<forall>p. set (children_of (mapLinks pool) p) \<subseteq> dom (map_of (mapLinks pool))"
    and it: "set toRemove \<subseteq> dom (map_of (mapLinks pool))"
    and cl: "links_closed (mapLinks pool) d" and dd: "distinct d"
  shows "\<exists>d'. CalculateDescendants_each pool toRemove d = Some d'
           \<and> set d' = set d \<union> (link_rel (mapLinks pool))\<^sup>* `` set toRemove
           \<and> distinct d'"
  using it cl dd
proof (induction toRemove arbitrary: d)
  case Nil
  then show ?case by simp
next
  case (Cons removeit rest)
  from Cons.prems(1) have a: "removeit \<in> dom (map_of (mapLinks pool))"
    and b: "set rest \<subseteq> dom (map_of (mapLinks pool))" by simp_all
  from CalculateDescendants_correct [OF wf a Cons.prems(2,3)]
  obtain d1 where run1: "CalculateDescendants pool removeit d = Some d1"
    and res1: "set d1 = set d \<union> (link_rel (mapLinks pool))\<^sup>* `` {removeit}"
    and dd1: "distinct d1" and cl1: "links_closed (mapLinks pool) d1" by blast
  from Cons.IH [OF b cl1 dd1]
  obtain d' where run: "CalculateDescendants_each pool rest d1 = Some d'"
    and res: "set d' = set d1 \<union> (link_rel (mapLinks pool))\<^sup>* `` set rest"
    and dd': "distinct d'" by blast
  have "set d' = set d \<union> (link_rel (mapLinks pool))\<^sup>* `` set (removeit # rest)"
    unfolding res res1 by auto
  with run1 run dd' show ?case by simp
qed

lemma find_handle:
  assumes "it \<in> set (map handle rtx)"
  obtains e where "find (\<lambda>e. handle e = it) rtx = Some e" "e \<in> set rtx" "handle e = it"
proof -
  from assms have "\<exists>e\<in>set rtx. handle e = it" by auto
  then obtain e where f: "find (\<lambda>e. handle e = it) rtx = Some e"
    by (cases "find (\<lambda>e. handle e = it) rtx") (auto simp: find_None_iff)
  then have "e \<in> set rtx" "handle e = it"
    by (auto simp: find_Some_iff)
  with f that show ?thesis by blast
qed

lemma RemoveStaged_correct:
  assumes "distinct stage" and "set stage \<subseteq> set (map handle (mapRTx pool))"
  shows "\<exists>pool' ents. RemoveStaged pool stage reason = Some pool'
      \<and> map handle ents = stage \<and> set ents \<subseteq> set (mapRTx pool)
      \<and> mapRTx pool' = filter (\<lambda>e. handle e \<notin> set stage) (mapRTx pool)
      \<and> map fst (signals pool')
          = map fst (signals pool) @ map (\<lambda>e. NotifyEntryRemoved (entry e) reason) ents"
  using assms
proof (induction stage arbitrary: pool)
  case Nil
  have "RemoveStaged pool [] reason = Some pool \<and> map handle [] = ([] :: uint256 list)
      \<and> set ([] :: RefMemPoolEntry list) \<subseteq> set (mapRTx pool)
      \<and> mapRTx pool = filter (\<lambda>e. handle e \<notin> set []) (mapRTx pool)
      \<and> map fst (signals pool)
          = map fst (signals pool) @ map (\<lambda>e. NotifyEntryRemoved (entry e) reason) []"
    by simp
  then show ?case by blast
next
  case (Cons it rest)
  from Cons.prems(2) have "it \<in> set (map handle (mapRTx pool))" by simp
  then obtain e where f: "find (\<lambda>e. handle e = it) (mapRTx pool) = Some e"
    and e: "e \<in> set (mapRTx pool)" and he: "handle e = it"
    by (rule find_handle)
  define pool1 where "pool1 = pool\<lparr>signals := signals pool @
                        [(NotifyEntryRemoved (entry e) reason,
                          \<lparr>cs_held = True, seen = map handle (mapRTx pool)\<rparr>)],
                     mapRTx := filter (\<lambda>x. handle x \<noteq> it) (mapRTx pool),
                     mapLinks := AList.delete it (mapLinks pool)\<rparr>"
  have ru: "RemoveUnchecked pool it reason = Some pool1"
    using f by (simp add: RemoveUnchecked_def pool1_def)
  have rtx1: "mapRTx pool1 = filter (\<lambda>x. handle x \<noteq> it) (mapRTx pool)"
    and sig1: "signals pool1 = signals pool @
                        [(NotifyEntryRemoved (entry e) reason,
                          \<lparr>cs_held = True, seen = map handle (mapRTx pool)\<rparr>)]"
    by (simp_all add: pool1_def)
  from Cons.prems have d: "distinct rest" and notin: "it \<notin> set rest" by simp_all
  have sub: "set rest \<subseteq> set (map handle (mapRTx pool1))"
  proof
    fix x assume x: "x \<in> set rest"
    with Cons.prems(2) have "x \<in> set (map handle (mapRTx pool))" by auto
    moreover from x notin have "x \<noteq> it" by blast
    ultimately show "x \<in> set (map handle (mapRTx pool1))" unfolding rtx1 by auto
  qed
  from Cons.IH [OF d sub]
  obtain pool' ents where run: "RemoveStaged pool1 rest reason = Some pool'"
    and h: "map handle ents = rest" and es: "set ents \<subseteq> set (mapRTx pool1)"
    and rtx: "mapRTx pool' = filter (\<lambda>e. handle e \<notin> set rest) (mapRTx pool1)"
    and sg: "map fst (signals pool')
          = map fst (signals pool1) @ map (\<lambda>e. NotifyEntryRemoved (entry e) reason) ents"
    by blast
  have c1: "RemoveStaged pool (it # rest) reason = Some pool'" using ru run by simp
  have c2: "map handle (e # ents) = it # rest" using he h by simp
  have c3: "set (e # ents) \<subseteq> set (mapRTx pool)" using e es rtx1 by auto
  have c4: "mapRTx pool' = filter (\<lambda>e. handle e \<notin> set (it # rest)) (mapRTx pool)"
    unfolding rtx rtx1 by (simp add: conj_commute)
  have c5: "map fst (signals pool')
          = map fst (signals pool) @ map (\<lambda>e. NotifyEntryRemoved (entry e) reason) (e # ents)"
    unfolding sg sig1 by simp
  show ?case
  proof (intro exI conjI)
    show "RemoveStaged pool (it # rest) reason = Some pool'" by (rule c1)
    show "map handle (e # ents) = it # rest" by (rule c2)
    show "set (e # ents) \<subseteq> set (mapRTx pool)" by (rule c3)
    show "mapRTx pool' = filter (\<lambda>e. handle e \<notin> set (it # rest)) (mapRTx pool)" by (rule c4)
    show "map fst (signals pool')
          = map fst (signals pool) @ map (\<lambda>e. NotifyEntryRemoved (entry e) reason) (e # ents)"
      by (rule c5)
  qed
qed

lemma children_of_update:
  "children_of (AList.update k v links) p = (if p = k then v else children_of links p)"
  by (simp add: children_of_def update_conv')

lemma wf_pool_AddUnchecked:
  assumes "wf_pool pool"
  shows "wf_pool (snd (AddUnchecked pool hash e))"
proof -
  let ?H = "set (map handle (mapRTx pool))"
  define n where "n = handle e"
  define rtx where "rtx = (if n \<in> ?H then mapRTx pool else mapRTx pool @ [e])"
  define links1 where "links1 = (if map_of (mapLinks pool) n = None then mapLinks pool @ [(n, [])]
                    else mapLinks pool)"
  define links2 where "links2 = (case find (\<lambda>parent. address (entry parent) = parentAddress (entry e)) rtx of
                      None \<Rightarrow> links1
                    | Some parent \<Rightarrow>
                        AList.update (handle parent)
                          (setEntries_insert n (children_of links1 (handle parent))) links1)"
  have res: "mapRTx (snd (AddUnchecked pool hash e)) = rtx"
    "mapLinks (snd (AddUnchecked pool hash e)) = links2"
    unfolding AddUnchecked_def Let_def links2_def links1_def rtx_def n_def by simp_all
  from assms have d: "distinct (map handle (mapRTx pool))"
    and dm: "dom (map_of (mapLinks pool)) = ?H"
    and ch: "\<And>p. set (children_of (mapLinks pool) p) \<subseteq> ?H"
    by (simp_all add: wf_pool_def)
  have H': "set (map handle rtx) = insert n ?H"
    by (auto simp: rtx_def n_def)
  have d': "distinct (map handle rtx)"
    using d by (auto simp: rtx_def n_def)
  have dm1: "dom (map_of links1) = insert n ?H"
  proof (cases "map_of (mapLinks pool) n = None")
    case True
    then have "map_of links1 = (map_of (mapLinks pool))(n \<mapsto> [])"
      by (auto simp: links1_def fun_eq_iff map_add_def split: option.splits)
    then have "dom (map_of links1) = insert n (dom (map_of (mapLinks pool)))" by simp
    with dm show ?thesis by simp
  next
    case False
    then have "n \<in> dom (map_of (mapLinks pool))" by (simp add: domIff)
    with dm have "insert n ?H = ?H" by (simp add: insert_absorb)
    with False dm show ?thesis by (simp add: links1_def)
  qed
  have ch1: "set (children_of links1 p) \<subseteq> insert n ?H" for p
  proof (cases "map_of (mapLinks pool) n = None")
    case True
    then have "children_of links1 p = (if p = n then [] else children_of (mapLinks pool) p)"
      by (auto simp: links1_def children_of_def map_add_def split: option.splits)
    with ch [of p] show ?thesis by auto
  next
    case False
    then have "links1 = mapLinks pool" by (simp add: links1_def)
    with ch [of p] show ?thesis by auto
  qed
  have dm2: "dom (map_of links2) = insert n ?H"
  proof (cases "find (\<lambda>parent. address (entry parent) = parentAddress (entry e)) rtx")
    case None
    with dm1 show ?thesis by (simp add: links2_def)
  next
    case (Some parent)
    then have "parent \<in> set rtx" by (auto simp: find_Some_iff)
    then have "handle parent \<in> insert n ?H" using H' by auto
    with dm1 Some show ?thesis by (auto simp: links2_def update_conv')
  qed
  have ch2: "set (children_of links2 p) \<subseteq> insert n ?H" for p
  proof (cases "find (\<lambda>parent. address (entry parent) = parentAddress (entry e)) rtx")
    case None
    with ch1 [of p] show ?thesis by (simp add: links2_def)
  next
    case (Some parent)
    then have "children_of links2 p = (if p = handle parent
        then setEntries_insert n (children_of links1 (handle parent)) else children_of links1 p)"
      by (simp add: links2_def children_of_update)
    with ch1 [of p] ch1 [of "handle parent"] show ?thesis
      by (auto simp: set_setEntries_insert)
  qed
  show ?thesis
    unfolding wf_pool_def res using d' dm2 ch2 H' by simp
qed

lemma wf_pool_Clear: "wf_pool (Clear pool)"
  by (simp add: wf_pool_def Clear_def children_of_def)

lemma reachable_wf_pool: "reachable pool \<Longrightarrow> wf_pool pool"
  by (induction rule: reachable.induct) (simp_all add: wf_pool_Clear wf_pool_AddUnchecked)

lemma wf_pool_closure:
  assumes "wf_pool pool" and "S \<subseteq> set (map handle (mapRTx pool))"
  shows "(link_rel (mapLinks pool))\<^sup>* `` S \<subseteq> set (map handle (mapRTx pool))"
proof (rule closed_contains [OF assms(2)])
  show "\<forall>x\<in>set (map handle (mapRTx pool)). \<forall>z. (x, z) \<in> link_rel (mapLinks pool)
          \<longrightarrow> z \<in> set (map handle (mapRTx pool))"
    using assms(1) by (auto simp: wf_pool_def link_rel_def)
qed

lemma removed_entries:
  assumes d: "distinct (map handle rtx)" and h: "map handle ents = stage" and s: "set ents \<subseteq> set rtx"
    and ds: "distinct stage"
  shows "distinct ents \<and> set ents = {e \<in> set rtx. handle e \<in> set stage}"
proof -
  have de: "distinct ents" using ds h by (metis distinct_map)
  have inj: "inj_on handle (set rtx)" using d by (simp add: distinct_map)
  have "set ents = {e \<in> set rtx. handle e \<in> set stage}"
  proof (intro equalityI subsetI)
    fix e assume "e \<in> set ents"
    with s h show "e \<in> {e \<in> set rtx. handle e \<in> set stage}" by auto
  next
    fix e assume "e \<in> {e \<in> set rtx. handle e \<in> set stage}"
    then have e: "e \<in> set rtx" and "handle e \<in> set (map handle ents)" using h by simp_all
    then obtain e' where e': "e' \<in> set ents" and eq: "handle e' = handle e" by auto
    from e' s have "e' \<in> set rtx" by blast
    with inj eq e have "e' = e" by (auto dest: inj_onD)
    with e' show "e \<in> set ents" by simp
  qed
  with de show ?thesis by simp
qed

lemmas pool_defs = AddUnchecked_def handle_def setEntries_insert_def children_of_def empty_pool_def
  CalculateDescendants_def stage_children_def RemoveUnchecked_def RemoveRecursive_def Expire_def
  E1_def E2_def E3_def R1_def R2_def R3_def

lemma reachable_empty_pool: "reachable empty_pool"
proof -
  have "Clear empty_pool = empty_pool" by (simp add: Clear_def empty_pool_def)
  with reachable.cleared [of empty_pool] show ?thesis by simp
qed

text \<open>
  In a pool built parents first the links map holds exactly the parent relation of the
  index: each \<open>AddUnchecked\<close> adds the link from the one entry that has the new entry's
  \<open>parentAddress\<close>, and no entry of the pool is a child of the new entry.
\<close>

lemma link_rel_snoc_empty:
  assumes "map_of links n = None"
  shows "link_rel (links @ [(n, [])]) = link_rel links"
proof -
  have "children_of (links @ [(n, [])]) q = children_of links q" for q
    using assms by (auto simp: children_of_def map_add_def split: option.splits)
  then show ?thesis by (simp add: link_rel_def)
qed

lemma link_rel_update:
  "link_rel (AList.update k v links) = {(p, c). (p, c) \<in> link_rel links \<and> p \<noteq> k} \<union> {k} \<times> set v"
  by (auto simp: link_rel_def children_of_update split: if_splits)

lemma link_rel_update_insert:
  "link_rel (AList.update k (setEntries_insert n (children_of links k)) links)
     = insert (k, n) (link_rel links)"
  unfolding link_rel_update by (auto simp: link_rel_def set_setEntries_insert)

lemma find_Some_set: "find P xs = Some x \<Longrightarrow> x \<in> set xs \<and> P x"
  by (induction xs) (auto split: if_splits)

lemma par_rel_iff:
  "(a, b) \<in> par_rel rtx \<longleftrightarrow>
     (\<exists>p\<in>set rtx. \<exists>c\<in>set rtx. a = handle p \<and> b = handle c
         \<and> parentAddress (entry c) = address (entry p))"
  unfolding par_rel_def by blast

lemma par_relI:
  "p \<in> set rtx \<Longrightarrow> c \<in> set rtx \<Longrightarrow> parentAddress (entry c) = address (entry p)
     \<Longrightarrow> (handle p, handle c) \<in> par_rel rtx"
  unfolding par_rel_def by blast

lemma par_rel_snoc:
  "par_rel (rtx @ [e]) = par_rel rtx
     \<union> {(handle x, handle e) | x. x \<in> set (rtx @ [e]) \<and> parentAddress (entry e) = address (entry x)}
     \<union> {(handle e, handle c) | c. c \<in> set rtx \<and> parentAddress (entry c) = address (entry e)}"
proof (rule set_eqI)
  fix z :: "uint256 \<times> uint256"
  obtain a b where z: "z = (a, b)" by (cases z)
  show "z \<in> par_rel (rtx @ [e]) \<longleftrightarrow> z \<in> par_rel rtx
     \<union> {(handle x, handle e) | x. x \<in> set (rtx @ [e]) \<and> parentAddress (entry e) = address (entry x)}
     \<union> {(handle e, handle c) | c. c \<in> set rtx \<and> parentAddress (entry c) = address (entry e)}"
    unfolding z by (auto simp: par_rel_iff)
qed

lemma AddUnchecked_mapRTx:
  "mapRTx (snd (AddUnchecked pool hash e))
     = (if handle e \<in> set (map handle (mapRTx pool)) then mapRTx pool else mapRTx pool @ [e])"
  by (simp add: AddUnchecked_def Let_def)

lemma linked_pool_added:
  assumes inv: "linked_pool pool"
    and fresh: "handle e \<notin> handle ` set (mapRTx pool)"
    and addr: "address (entry e) \<notin> (\<lambda>x. address (entry x)) ` set (mapRTx pool)"
    and nochild: "address (entry e) \<notin> (\<lambda>x. parentAddress (entry x)) ` set (mapRTx pool)"
  shows "linked_pool (snd (AddUnchecked pool hash e))"
proof -
  let ?pool' = "snd (AddUnchecked pool hash e)"
  let ?rtx = "mapRTx pool"
  let ?links1 = "mapLinks pool @ [(handle e, [])]"
  from inv have wf: "wf_pool pool"
    and da: "distinct (map (\<lambda>x. address (entry x)) ?rtx)"
    and lr: "link_rel (mapLinks pool) = par_rel ?rtx"
    by (simp_all add: linked_pool_def)
  have rtx': "mapRTx ?pool' = ?rtx @ [e]"
    using fresh by (simp add: AddUnchecked_mapRTx)
  from wf fresh have nolink: "map_of (mapLinks pool) (handle e) = None"
    by (auto simp: wf_pool_def)
  have l1: "link_rel ?links1 = par_rel ?rtx"
    using link_rel_snoc_empty [OF nolink] lr by simp
  have da': "distinct (map (\<lambda>x. address (entry x)) (?rtx @ [e]))"
    using da addr by simp
  then have inj: "inj_on (\<lambda>x. address (entry x)) (set (?rtx @ [e]))"
    by (simp only: distinct_map)
  have nokids: "{(handle e, handle c) | c. c \<in> set ?rtx \<and> parentAddress (entry c) = address (entry e)} = {}"
    using nochild by force
  have pr: "par_rel (?rtx @ [e]) = par_rel ?rtx
     \<union> {(handle x, handle e) | x. x \<in> set (?rtx @ [e]) \<and> parentAddress (entry e) = address (entry x)}"
    unfolding par_rel_snoc nokids by simp
  have "link_rel (mapLinks ?pool') = par_rel (?rtx @ [e])"
  proof (cases "find (\<lambda>parent. address (entry parent) = parentAddress (entry e)) (?rtx @ [e])")
    case None
    then have "{(handle x, handle e) | x. x \<in> set (?rtx @ [e]) \<and> parentAddress (entry e) = address (entry x)} = {}"
      by (auto simp: find_None_iff)
    then have "par_rel (?rtx @ [e]) = par_rel ?rtx" unfolding pr by (simp only: Un_empty_right)
    moreover have "mapLinks ?pool' = ?links1"
      using None nolink fresh by (simp add: AddUnchecked_def Let_def)
    ultimately show ?thesis using l1 by simp
  next
    case (Some p)
    then have p: "p \<in> set (?rtx @ [e])" and ap: "address (entry p) = parentAddress (entry e)"
      by (auto dest: find_Some_set)
    have "{(handle x, handle e) | x. x \<in> set (?rtx @ [e]) \<and> parentAddress (entry e) = address (entry x)}
            = {(handle p, handle e)}"
    proof (intro equalityI subsetI)
      fix z assume "z \<in> {(handle x, handle e) | x. x \<in> set (?rtx @ [e]) \<and> parentAddress (entry e) = address (entry x)}"
      then obtain x where z: "z = (handle x, handle e)" and x: "x \<in> set (?rtx @ [e])"
        and ax: "parentAddress (entry e) = address (entry x)" by blast
      from ax ap have "address (entry x) = address (entry p)" by simp
      with inj_onD [OF inj _ x p] have "x = p" by simp
      with z show "z \<in> {(handle p, handle e)}" by simp
    next
      fix z assume "z \<in> {(handle p, handle e)}"
      with p ap [symmetric] show "z \<in> {(handle x, handle e) | x. x \<in> set (?rtx @ [e]) \<and> parentAddress (entry e) = address (entry x)}"
        by blast
    qed
    then have "par_rel (?rtx @ [e]) = insert (handle p, handle e) (par_rel ?rtx)"
      unfolding pr by (simp only: Un_insert_right Un_empty_right)
    moreover have "mapLinks ?pool' = AList.update (handle p)
              (setEntries_insert (handle e) (children_of ?links1 (handle p))) ?links1"
      using Some nolink fresh by (simp add: AddUnchecked_def Let_def)
    ultimately show ?thesis using l1 by (simp add: link_rel_update_insert)
  qed
  with wf_pool_AddUnchecked [OF wf, of hash e] da' rtx' show ?thesis
    by (simp add: linked_pool_def)
qed

lemma linked_pool_readded:
  assumes inv: "linked_pool pool" and x: "x \<in> set (mapRTx pool)" and same: "entry e = entry x"
  shows "linked_pool (snd (AddUnchecked pool hash e))"
proof -
  let ?pool' = "snd (AddUnchecked pool hash e)"
  let ?rtx = "mapRTx pool"
  from inv have wf: "wf_pool pool"
    and da: "distinct (map (\<lambda>x. address (entry x)) ?rtx)"
    and lr: "link_rel (mapLinks pool) = par_rel ?rtx"
    by (simp_all add: linked_pool_def)
  have he: "handle e = handle x" using same by (simp add: handle_def)
  with x have mem: "handle e \<in> set (map handle ?rtx)" by auto
  then have rtx': "mapRTx ?pool' = ?rtx" by (simp add: AddUnchecked_mapRTx)
  from wf mem have "handle e \<in> dom (map_of (mapLinks pool))"
    by (simp add: wf_pool_def)
  then obtain cs where haslink: "map_of (mapLinks pool) (handle e) = Some cs"
    by blast
  have "link_rel (mapLinks ?pool') = link_rel (mapLinks pool)"
  proof (cases "find (\<lambda>parent. address (entry parent) = parentAddress (entry e)) ?rtx")
    case None
    then show ?thesis using haslink mem by (simp add: AddUnchecked_def Let_def)
  next
    case (Some p)
    then have p: "p \<in> set ?rtx" and ap: "address (entry p) = parentAddress (entry e)"
      by (auto dest: find_Some_set)
    with same have "parentAddress (entry x) = address (entry p)" by simp
    with p x have "(handle p, handle x) \<in> par_rel ?rtx" by (rule par_relI)
    with lr he have "(handle p, handle e) \<in> link_rel (mapLinks pool)" by simp
    then have "insert (handle p, handle e) (link_rel (mapLinks pool)) = link_rel (mapLinks pool)"
      by (rule insert_absorb)
    moreover have "mapLinks ?pool' = AList.update (handle p)
              (setEntries_insert (handle e) (children_of (mapLinks pool) (handle p))) (mapLinks pool)"
      using Some haslink mem by (simp add: AddUnchecked_def Let_def)
    ultimately show ?thesis by (simp add: link_rel_update_insert)
  qed
  with wf_pool_AddUnchecked [OF wf, of hash e] da lr rtx' show ?thesis
    by (simp add: linked_pool_def)
qed

lemma linked_pool_Clear: "linked_pool (Clear pool)"
  by (simp add: linked_pool_def wf_pool_Clear) (simp add: Clear_def link_rel_def children_of_def par_rel_def)

lemma parents_first_linked_pool: "parents_first pool \<Longrightarrow> linked_pool pool"
  by (induction rule: parents_first.induct)
     (simp_all add: linked_pool_Clear linked_pool_added linked_pool_readded)


lemma RemoveRecursive_on_wf_pool:
  assumes wf: "wf_pool pool" and present: "GetHash R \<in> set (map handle (mapRTx pool))"
  shows "\<exists>pool' ents. RemoveRecursive pool R reason = Some pool'
      \<and> distinct ents
      \<and> set ents = {e \<in> set (mapRTx pool).
                      handle e \<in> (link_rel (mapLinks pool))\<^sup>* `` {GetHash R}}
      \<and> mapRTx pool' = filter (\<lambda>e. handle e \<notin> (link_rel (mapLinks pool))\<^sup>* `` {GetHash R})
                          (mapRTx pool)
      \<and> map fst (signals pool')
          = map fst (signals pool) @ map (\<lambda>e. NotifyEntryRemoved (entry e) reason) ents"
proof -
  let ?D = "(link_rel (mapLinks pool))\<^sup>* `` {GetHash R}"
  from wf have d: "distinct (map handle (mapRTx pool))"
    and dm: "dom (map_of (mapLinks pool)) = set (map handle (mapRTx pool))"
    and ch: "\<forall>p. set (children_of (mapLinks pool) p) \<subseteq> dom (map_of (mapLinks pool))"
    by (simp_all add: wf_pool_def)
  from present obtain e where f: "find (\<lambda>e. handle e = GetHash R) (mapRTx pool) = Some e"
    and he: "handle e = GetHash R" by (rule find_handle)
  have it: "handle e \<in> dom (map_of (mapLinks pool))" using he present dm by simp
  have cl: "links_closed (mapLinks pool) []" by (simp add: links_closed_def)
  from CalculateDescendants_correct [OF ch it cl]
  obtain stage where cd: "CalculateDescendants pool (handle e) [] = Some stage"
    and st: "set stage = ?D" and ds: "distinct stage"
    using he by auto
  have sub: "set stage \<subseteq> set (map handle (mapRTx pool))"
    unfolding st using wf_pool_closure [OF wf, of "{GetHash R}"] present by simp
  from RemoveStaged_correct [OF ds sub, of reason]
  obtain pool' ents where rs: "RemoveStaged pool stage reason = Some pool'"
    and h: "map handle ents = stage" and es: "set ents \<subseteq> set (mapRTx pool)"
    and rtx: "mapRTx pool' = filter (\<lambda>e. handle e \<notin> set stage) (mapRTx pool)"
    and sg: "map fst (signals pool')
          = map fst (signals pool) @ map (\<lambda>e. NotifyEntryRemoved (entry e) reason) ents"
    by blast
  from removed_entries [OF d h es ds]
  have de: "distinct ents" and se: "set ents = {e \<in> set (mapRTx pool). handle e \<in> ?D}"
    unfolding st by simp_all
  show ?thesis
  proof (intro exI conjI)
    show "RemoveRecursive pool R reason = Some pool'"
      using f cd rs by (simp add: RemoveRecursive_def)
    show "distinct ents" by (rule de)
    show "set ents = {e \<in> set (mapRTx pool). handle e \<in> ?D}" by (rule se)
    show "mapRTx pool' = filter (\<lambda>e. handle e \<notin> ?D) (mapRTx pool)"
      using rtx unfolding st .
    show "map fst (signals pool')
          = map fst (signals pool) @ map (\<lambda>e. NotifyEntryRemoved (entry e) reason) ents"
      by (rule sg)
  qed
qed

lemma parents_first_empty_pool: "parents_first empty_pool"
proof -
  have "Clear empty_pool = empty_pool" by (simp add: Clear_def empty_pool_def)
  with parents_first.cleared [of empty_pool] show ?thesis by simp
qed

lemma parents_first_pool123: "parents_first pool123"
proof -
  let ?p1 = "snd (AddUnchecked empty_pool 21 E1)"
  let ?p2 = "snd (AddUnchecked ?p1 22 E2)"
  have r1: "mapRTx ?p1 = [E1]" by (simp add: pool_defs)
  have r2: "mapRTx ?p2 = [E1, E2]" by (simp add: pool_defs)
  have p1: "parents_first ?p1"
    by (rule parents_first.added [OF parents_first_empty_pool]) (simp_all add: empty_pool_def)
  have p2: "parents_first ?p2"
    by (rule parents_first.added [OF p1]; unfold r1) (simp_all add: pool_defs)
  show ?thesis unfolding pool123_def
    by (rule parents_first.added [OF p2]; unfold r2) (simp_all add: pool_defs)
qed

text \<open>
  C6, as stated, fails: \<open>AddUnchecked\<close> links a new entry to its parent only when the
  parent is in the pool already, and to the first entry of the index that has the
  parent's address. When the child E2 is added before its parent E1, no link is made,
  and \<open>RemoveRecursive\<close> of the parent's referral leaves the child, whose
  \<open>parentAddress\<close> is the address of the removed entry. When two entries carry the same
  address, the child is linked to the first of them only, and \<open>RemoveRecursive\<close> of the
  second leaves the child.
\<close>

theorem RemoveRecursive_removes_descendants_counterexample:
  "reachable child_first_pool
   \<and> parentAddress (entry E2) = address (entry E1)
   \<and> map handle (mapRTx child_first_pool) = [handle E2, handle E1]
   \<and> map_option (\<lambda>pool. mapRTx pool) (RemoveRecursive child_first_pool R1 EXPIRY) = Some [E2]
   \<and> reachable twin_pool
   \<and> mapRTx twin_pool = [E1, E1twin, E2]
   \<and> parentAddress (entry E2) = address (entry E1twin)
   \<and> map_option (\<lambda>pool. mapRTx pool) (RemoveRecursive twin_pool R1twin EXPIRY) = Some [E1, E2]"
proof -
  have "reachable child_first_pool"
    unfolding child_first_pool_def by (intro reachable.added reachable_empty_pool)
  moreover have "parentAddress (entry E2) = address (entry E1)
   \<and> map handle (mapRTx child_first_pool) = [handle E2, handle E1]
   \<and> map_option (\<lambda>pool. mapRTx pool) (RemoveRecursive child_first_pool R1 EXPIRY) = Some [E2]"
    by (simp add: child_first_pool_def pool_defs)
  moreover have "reachable twin_pool"
    unfolding twin_pool_def by (intro reachable.added reachable_empty_pool)
  moreover have "mapRTx twin_pool = [E1, E1twin, E2]
   \<and> parentAddress (entry E2) = address (entry E1twin)
   \<and> map_option (\<lambda>pool. mapRTx pool) (RemoveRecursive twin_pool R1twin EXPIRY) = Some [E1, E2]"
    by (simp add: twin_pool_def pool_defs E1twin_def R1twin_def)
  ultimately show ?thesis by simp
qed

text \<open>
  C6, amended: for every mempool state built by \<open>AddUnchecked\<close> calls in which every
  entry is added before the entries that name its address as their \<open>parentAddress\<close>
  and no two entries have the same address (adding a referral that is in the pool
  already is allowed), and every referral R present in it, \<open>RemoveRecursive(R, reason)\<close>
  removes exactly R's entry and the entries whose ancestor chain in the mempool
  (following \<open>parentAddress\<close> links through mempool entries) contains R: no such entry
  remains, every other entry remains, and \<open>NotifyEntryRemoved\<close> fires once, with
  \<open>reason\<close>, for each removed entry.
\<close>

theorem RemoveRecursive_removes_descendants:
  assumes "parents_first pool" and "GetHash R \<in> set (map handle (mapRTx pool))"
  shows "\<exists>pool' ents. RemoveRecursive pool R reason = Some pool'
      \<and> distinct ents
      \<and> set ents = {e \<in> set (mapRTx pool).
                      handle e \<in> (par_rel (mapRTx pool))\<^sup>* `` {GetHash R}}
      \<and> mapRTx pool' = filter (\<lambda>e. handle e \<notin> (par_rel (mapRTx pool))\<^sup>* `` {GetHash R})
                          (mapRTx pool)
      \<and> map fst (signals pool')
          = map fst (signals pool) @ map (\<lambda>e. NotifyEntryRemoved (entry e) reason) ents"
proof -
  from assms(1) have "linked_pool pool" by (rule parents_first_linked_pool)
  then have wf: "wf_pool pool" and lr: "link_rel (mapLinks pool) = par_rel (mapRTx pool)"
    by (simp_all add: linked_pool_def)
  from RemoveRecursive_on_wf_pool [OF wf assms(2), of reason] show ?thesis
    unfolding lr .
qed

theorem RemoveRecursive_removes_descendants_witness:
  "parents_first pool123 \<and> GetHash R1 \<in> set (map handle (mapRTx pool123))
   \<and> (\<exists>pool' ents. RemoveRecursive pool123 R1 EXPIRY = Some pool'
        \<and> distinct ents
        \<and> set ents = {e \<in> set (mapRTx pool123).
                        handle e \<in> (par_rel (mapRTx pool123))\<^sup>* `` {GetHash R1}}
        \<and> mapRTx pool' = filter (\<lambda>e. handle e \<notin> (par_rel (mapRTx pool123))\<^sup>* `` {GetHash R1})
                            (mapRTx pool123)
        \<and> map fst (signals pool')
            = map fst (signals pool123) @ map (\<lambda>e. NotifyEntryRemoved (entry e) EXPIRY) ents)
   \<and> mapRTx pool123 = [E1, E2, E3]
   \<and> parentAddress (entry E2) = address (entry E1)
   \<and> parentAddress (entry E3) = address (entry E2)
   \<and> map_option (\<lambda>pool. mapRTx pool) (RemoveRecursive pool123 R1 EXPIRY) = Some []
   \<and> map_option (\<lambda>pool. map fst (drop 3 (signals pool))) (RemoveRecursive pool123 R1 EXPIRY)
       = Some [NotifyEntryRemoved R1 EXPIRY, NotifyEntryRemoved R2 EXPIRY,
               NotifyEntryRemoved R3 EXPIRY]"
proof -
  have h2: "GetHash R1 \<in> set (map handle (mapRTx pool123))"
    by (simp add: pool123_def pool_defs)
  have run: "mapRTx pool123 = [E1, E2, E3]
   \<and> parentAddress (entry E2) = address (entry E1)
   \<and> parentAddress (entry E3) = address (entry E2)
   \<and> map_option (\<lambda>pool. mapRTx pool) (RemoveRecursive pool123 R1 EXPIRY) = Some []
   \<and> map_option (\<lambda>pool. map fst (drop 3 (signals pool))) (RemoveRecursive pool123 R1 EXPIRY)
       = Some [NotifyEntryRemoved R1 EXPIRY, NotifyEntryRemoved R2 EXPIRY,
               NotifyEntryRemoved R3 EXPIRY]"
    by (simp add: pool123_def pool_defs)
  from RemoveRecursive_removes_descendants [OF parents_first_pool123 h2, of EXPIRY]
    parents_first_pool123 h2 run
  show ?thesis by blast
qed

section \<open>Expiry\<close>

lemma set_fold_setEntries_insert: "set (fold setEntries_insert xs s) = set xs \<union> set s"
  by (induction xs arbitrary: s) (auto simp: set_setEntries_insert)

lemma distinct_fold_setEntries_insert: "distinct s \<Longrightarrow> distinct (fold setEntries_insert xs s)"
  by (induction xs arbitrary: s) (auto simp: distinct_setEntries_insert)

lemma takeWhile_sorted_filter:
  fixes f :: "'a \<Rightarrow> int"
  assumes "sorted (map f ys)"
  shows "takeWhile (\<lambda>e. f e < t) ys = filter (\<lambda>e. f e < t) ys"
  using assms
proof (induction ys)
  case Nil
  then show ?case by simp
next
  case (Cons y ys)
  show ?case
  proof (cases "f y < t")
    case True
    with Cons show ?thesis by simp
  next
    case False
    from Cons.prems have "\<forall>z\<in>set ys. f y \<le> f z" by simp
    with False have "\<forall>z\<in>set ys. \<not> f z < t" by fastforce
    then have "filter (\<lambda>e. f e < t) ys = []" by (simp add: filter_empty_conv)
    with False show ?thesis by simp
  qed
qed

text \<open>
  On a pool whose links map has an entry for exactly the entries of the index, with
  every child iterator pointing to an entry of the index, \<open>Expire(t)\<close> is exact: it
  removes the entries with an entry time before t and the entries reachable from them
  through the links map, no other entry, and returns their number.
\<close>

lemma Expire_exact_on_wf_pool:
  assumes "wf_pool pool"
  shows "\<exists>pool' ents. Expire pool t = Some (int (length ents), pool')
      \<and> distinct ents
      \<and> set ents = {e \<in> set (mapRTx pool).
            handle e \<in> (link_rel (mapLinks pool))\<^sup>* ``
                          (handle ` {x \<in> set (mapRTx pool). nTime x < t})}
      \<and> mapRTx pool' = filter (\<lambda>e. handle e \<notin> (link_rel (mapLinks pool))\<^sup>* ``
                          (handle ` {x \<in> set (mapRTx pool). nTime x < t})) (mapRTx pool)
      \<and> int (length ents) = int (card (set ents))"
proof -
  let ?X = "handle ` {x \<in> set (mapRTx pool). nTime x < t}"
  let ?D = "(link_rel (mapLinks pool))\<^sup>* `` ?X"
  define toRemove where "toRemove = fold setEntries_insert
            (map handle (takeWhile (\<lambda>e. nTime e < t) (sort_key nTime (mapRTx pool)))) []"
  from assms have d: "distinct (map handle (mapRTx pool))"
    and dm: "dom (map_of (mapLinks pool)) = set (map handle (mapRTx pool))"
    and ch: "\<forall>p. set (children_of (mapLinks pool) p) \<subseteq> dom (map_of (mapLinks pool))"
    by (simp_all add: wf_pool_def)
  have "takeWhile (\<lambda>e. nTime e < t) (sort_key nTime (mapRTx pool))
          = filter (\<lambda>e. nTime e < t) (sort_key nTime (mapRTx pool))"
    by (rule takeWhile_sorted_filter) simp
  then have tr: "set toRemove = ?X"
    by (auto simp: toRemove_def set_fold_setEntries_insert)
  then have trsub: "set toRemove \<subseteq> dom (map_of (mapLinks pool))"
    unfolding dm by auto
  have cl: "links_closed (mapLinks pool) []" by (simp add: links_closed_def)
  from CalculateDescendants_each_correct [OF ch trsub cl]
  obtain stage where cd: "CalculateDescendants_each pool toRemove [] = Some stage"
    and st: "set stage = ?D" and ds: "distinct stage"
    unfolding tr by auto
  have "?X \<subseteq> set (map handle (mapRTx pool))" by auto
  from wf_pool_closure [OF assms this]
  have sub: "set stage \<subseteq> set (map handle (mapRTx pool))" unfolding st .
  from RemoveStaged_correct [OF ds sub, of EXPIRY]
  obtain pool' ents where rs: "RemoveStaged pool stage EXPIRY = Some pool'"
    and h: "map handle ents = stage" and es: "set ents \<subseteq> set (mapRTx pool)"
    and rtx: "mapRTx pool' = filter (\<lambda>e. handle e \<notin> set stage) (mapRTx pool)"
    by blast
  from removed_entries [OF d h es ds]
  have de: "distinct ents" and se: "set ents = {e \<in> set (mapRTx pool). handle e \<in> ?D}"
    unfolding st by simp_all
  have len: "length stage = length ents" using h by (metis length_map)
  show ?thesis
  proof (intro exI conjI)
    show "Expire pool t = Some (int (length ents), pool')"
      using cd rs len by (simp add: Expire_def toRemove_def [symmetric])
    show "distinct ents" by (rule de)
    show "set ents = {e \<in> set (mapRTx pool). handle e \<in> ?D}" by (rule se)
    show "mapRTx pool' = filter (\<lambda>e. handle e \<notin> ?D) (mapRTx pool)"
      using rtx unfolding st .
    show "int (length ents) = int (card (set ents))"
      using de by (simp add: distinct_card)
  qed
qed

text \<open>
  C7: for every mempool state and time t, \<open>Expire(t)\<close> should remove exactly the
  entries with \<open>entryTime < t\<close> and their mempool-descendants and return their number.
  The code does not restore its own invariant on removal: \<open>RemoveUnchecked\<close> erases an
  entry and its links entry but leaves the iterator to it in the child set of its
  parent (the update of the links in \<open>RemoveStaged\<close> is commented out). \<open>Expire(75)\<close>
  on the pool of E1 and its child with entry time 50 removes the child and returns 1;
  in the state it leaves, \<open>Expire(150)\<close> walks from E1 to the erased child and fails the
  assertion of \<open>GetMemPoolChildren\<close> instead of removing E1 and returning 1. The same
  happens after \<open>RemoveForBlock\<close> has removed the child.
\<close>

theorem Expire_stale_child_iterator:
  "map_option fst (Expire child_older_pool 75) = Some 1
   \<and> map_option (\<lambda>r. mapRTx (snd r)) (Expire child_older_pool 75) = Some [E1]
   \<and> map_option (\<lambda>r. mapLinks (snd r)) (Expire child_older_pool 75) = Some [(21, [22])]
   \<and> nTime E1 < 150
   \<and> Option.bind (Expire child_older_pool 75) (\<lambda>r. Expire (snd r) 150) = None
   \<and> RemoveForBlock pool12 [R2] = Some stale_pool
   \<and> mapRTx stale_pool = [E1]
   \<and> Expire stale_pool 150 = None"
proof -
  have a: "map_option fst (Expire child_older_pool 75) = Some 1
   \<and> map_option (\<lambda>r. mapRTx (snd r)) (Expire child_older_pool 75) = Some [E1]
   \<and> map_option (\<lambda>r. mapLinks (snd r)) (Expire child_older_pool 75) = Some [(21, [22])]
   \<and> Option.bind (Expire child_older_pool 75) (\<lambda>r. Expire (snd r) 150) = None"
    by (simp add: child_older_pool_def E2early_def pool_defs)
  have b: "RemoveForBlock pool12 [R2] = Some stale_pool"
    by (simp add: stale_pool_def pool12_def pool_defs)
  have c: "mapRTx stale_pool = [E1]"
    by (simp add: stale_pool_def pool12_def pool_defs)
  have d: "Expire stale_pool 150 = None"
    by (simp add: stale_pool_def pool12_def pool_defs)
  from a b c d show ?thesis by (simp add: E1_def)
qed

end
